theory Spec2Isabelle
  imports Main "HOL-Library.Word" "HOL-Library.Signed_Division"
begin

unbundle bit_operations_syntax

section \<open>The timer device of Pintos (src/devices/timer.c)\<close>

text \<open>
  The theory embeds \<^verbatim>\<open>src/devices/timer.c\<close>: the tick counter, the list of
  sleeping threads with its lock, the wake-up loop, the duration wrappers and the
  calibration of the busy-wait loop. Every C function is a HOL function of the same name
  on an explicit state record. A function that can hit \<^verbatim>\<open>ASSERT\<close> or
  \<^verbatim>\<open>PANIC\<close> returns \<open>error + timer_state\<close>; a function that may run
  forever returns an \<open>option\<close> on top of that, \<open>None\<close> standing for "does not return".
\<close>

subsection \<open>Machine integers\<close>

type_synonym int64_t = "64 word"
type_synonym int32_t = "32 word"
type_synonym unsigned = "32 word"

text \<open>
  \<^verbatim>\<open>int64_t\<close> and \<^verbatim>\<open>int32_t\<close> are words read as two's complement
  (\<open>sint\<close>) and compared with \<open><s\<close> and \<open>\<le>s\<close>; addition and
  multiplication wrap around, as the compiled code's do.
\<close>

text \<open>\<^verbatim>\<open>struct thread *\<close>: an opaque handle of a thread.\<close>

type_synonym tid = nat

text \<open>
  C's \<^verbatim>\<open>/\<close> and \<^verbatim>\<open>%\<close> on signed operands truncate towards zero;
  \<open>sdiv\<close> and \<open>smod\<close> on \<open>int\<close> do the same, and the quotient is stored back
  in the operand width.
\<close>

definition sdiv64 :: "int64_t \<Rightarrow> int64_t \<Rightarrow> int64_t" where
  "sdiv64 a b = word_of_int (sint a sdiv sint b)"

definition sdiv32 :: "int32_t \<Rightarrow> int32_t \<Rightarrow> int32_t" where
  "sdiv32 a b = word_of_int (sint a sdiv sint b)"

definition smod32 :: "int32_t \<Rightarrow> int32_t \<Rightarrow> int32_t" where
  "smod32 a b = word_of_int (sint a smod sint b)"

text \<open>
  C leaves a signed division undefined when the divisor is zero or the quotient does
  not fit (\<^verbatim>\<open>INT64_MIN / -1\<close>); on the machine it is a divide error. The model
  makes it an error value.
\<close>

definition div_traps :: "int64_t \<Rightarrow> int64_t \<Rightarrow> bool" where
  "div_traps a b \<longleftrightarrow> b = 0 \<or> (a = - (2 ^ 63) \<and> b = - 1)"

subsection \<open>State\<close>

datatype intr_level = INTR_OFF | INTR_ON

datatype error = AssertionFailure | Panic | DivideError

text \<open>
  \<^verbatim>\<open>struct sleeping_thread\<close>. The field \<^verbatim>\<open>elem\<close> links the structure into
  the list; here the list is a HOL list of these records, first element at the front.
\<close>

record sleeping_thread =
  t :: tid
  wake_up_time :: int64_t

text \<open>
  The calls the timer makes into the lock, the scheduler, the list and the busy-wait
  loop, in program order. \<open>ListInsert c\<close> is the call that puts the entry of thread
  \<open>c\<close> into the list (\<^verbatim>\<open>list_push_back\<close> or \<^verbatim>\<open>list_insert_ordered\<close>),
  \<open>ListPop c\<close> the call of \<^verbatim>\<open>list_pop_front\<close> that takes it out, and
  \<open>BusyWait k\<close> a call of \<^verbatim>\<open>busy_wait\<close> that spun \<open>k\<close> times.
\<close>

datatype event =
    LockAcquire
  | LockRelease
  | ThreadBlock tid
  | ThreadUnblock tid
  | ListInsert tid
  | ListPop tid
  | BusyWait nat

text \<open>
  The file's static variables, the interrupt level, the number of blocks the allocator
  can still hand out, and the log of the calls made so far.
\<close>

record timer_state =
  ticks :: int64_t
  loops_per_tick :: unsigned
  sleeping_threads_list :: "sleeping_thread list"
  wakeup_needed :: bool
  level :: intr_level
  heap_blocks :: nat
  calls :: "event list"

text \<open>The state after \<^verbatim>\<open>timer_init\<close>: zeroed statics, an empty list.\<close>

definition timer_init :: "intr_level \<Rightarrow> nat \<Rightarrow> timer_state" where
  "timer_init l h =
     \<lparr>ticks = 0, loops_per_tick = 0, sleeping_threads_list = [], wakeup_needed = False,
      level = l, heap_blocks = h, calls = []\<rparr>"

subsection \<open>Collaborators that are not part of timer.c\<close>

text \<open>
  The functions below belong to files of the kernel that are not among the sources
  (threads/interrupt.c, threads/synch.c, threads/thread.c, threads/malloc.c,
  lib/kernel/list.c). The spec treats them as external collaborators; each is modelled
  by its effect on the state above.
\<close>

text \<open>
  Modelled from the spec: \<^verbatim>\<open>intr_disable\<close> of threads/interrupt.c ("the underlying
  interrupt controller" is an external collaborator). Turns interrupts off and returns
  the level before the call.
\<close>

definition intr_disable :: "timer_state \<Rightarrow> intr_level \<times> timer_state" where
  "intr_disable s = (level s, s\<lparr>level := INTR_OFF\<rparr>)"

text \<open>
  Modelled from the spec: \<^verbatim>\<open>intr_enable\<close> of threads/interrupt.c. Turns interrupts
  on and returns the level before the call.
\<close>

definition intr_enable :: "timer_state \<Rightarrow> intr_level \<times> timer_state" where
  "intr_enable s = (level s, s\<lparr>level := INTR_ON\<rparr>)"

text \<open>
  Modelled from the spec: \<^verbatim>\<open>intr_set_level\<close> of threads/interrupt.c. Sets the
  interrupt level.
\<close>

definition intr_set_level :: "intr_level \<Rightarrow> timer_state \<Rightarrow> timer_state" where
  "intr_set_level l s = s\<lparr>level := l\<rparr>"

text \<open>
  Modelled from the spec: \<^verbatim>\<open>lock_acquire\<close> of threads/synch.c ("lock/mutex
  primitives themselves, consumed as an opaque mutual-exclusion primitive"). The call
  is logged; from it on the caller holds the lock.
\<close>

definition lock_acquire :: "timer_state \<Rightarrow> timer_state" where
  "lock_acquire s = s\<lparr>calls := calls s @ [LockAcquire]\<rparr>"

text \<open>
  Modelled from the spec: \<^verbatim>\<open>lock_release\<close> of threads/synch.c. The call is logged;
  from it on the lock is free.
\<close>

definition lock_release :: "timer_state \<Rightarrow> timer_state" where
  "lock_release s = s\<lparr>calls := calls s @ [LockRelease]\<rparr>"

text \<open>
  Modelled from the spec: \<^verbatim>\<open>thread_block\<close> of threads/thread.c ("block/unblock/yield
  primitives are consumed, not reimplemented"). The call by thread \<open>c\<close> is logged; the
  timer's variables are untouched.
\<close>

definition thread_block :: "tid \<Rightarrow> timer_state \<Rightarrow> timer_state" where
  "thread_block c s = s\<lparr>calls := calls s @ [ThreadBlock c]\<rparr>"

text \<open>
  Modelled from the spec: \<^verbatim>\<open>thread_unblock\<close> of threads/thread.c. The call for
  thread \<open>c\<close> is logged; the timer's variables are untouched.
\<close>

definition thread_unblock :: "tid \<Rightarrow> timer_state \<Rightarrow> timer_state" where
  "thread_unblock c s = s\<lparr>calls := calls s @ [ThreadUnblock c]\<rparr>"

text \<open>
  Modelled from the spec: \<^verbatim>\<open>thread_tick\<close> of threads/thread.c ("the scheduler's
  per-tick bookkeeping"). It does not touch the timer's variables.
\<close>

definition thread_tick :: "timer_state \<Rightarrow> timer_state" where
  "thread_tick s = s"

text \<open>
  Modelled from the spec: \<^verbatim>\<open>malloc\<close> of threads/malloc.c, of which the spec says
  nothing; the allocator is a count of the blocks it can still hand out. The call
  returns \<^verbatim>\<open>NULL\<close> (here \<open>None\<close>) exactly when no block is left.
\<close>

definition malloc :: "timer_state \<Rightarrow> timer_state option" where
  "malloc s = (if heap_blocks s = 0 then None else Some (s\<lparr>heap_blocks := heap_blocks s - 1\<rparr>))"

text \<open>Modelled from the spec: \<^verbatim>\<open>free\<close> of threads/malloc.c. Gives one block back.\<close>

definition free :: "timer_state \<Rightarrow> timer_state" where
  "free s = s\<lparr>heap_blocks := heap_blocks s + 1\<rparr>"

text \<open>
  Modelled from the spec: \<^verbatim>\<open>list_empty\<close> of lib/kernel/list.c; the "ordered
  sequence" of the spec is a HOL list.
\<close>

definition list_empty :: "'a list \<Rightarrow> bool" where
  "list_empty q \<longleftrightarrow> q = []"

text \<open>Modelled from the spec: \<^verbatim>\<open>list_push_back\<close> of lib/kernel/list.c: insertion at the tail.\<close>

definition list_push_back :: "'a list \<Rightarrow> 'a \<Rightarrow> 'a list" where
  "list_push_back q x = q @ [x]"

text \<open>
  Modelled from the spec: \<^verbatim>\<open>list_front\<close> of lib/kernel/list.c: "the head element".
  timer.c calls it on a list it has just found not to be empty.
\<close>

definition list_front :: "'a list \<Rightarrow> 'a" where
  "list_front q = hd q"

text \<open>
  Modelled from the spec: \<^verbatim>\<open>list_pop_front\<close> of lib/kernel/list.c: "pop head".
  timer.c calls it on a list it has just found not to be empty.
\<close>

definition list_pop_front :: "'a list \<Rightarrow> 'a list" where
  "list_pop_front q = tl q"

text \<open>
  Modelled from the spec: \<^verbatim>\<open>list_insert_ordered\<close> of lib/kernel/list.c. The spec
  says: "insertion point is the first entry whose \<^verbatim>\<open>wake_tick\<close> exceeds the new one,
  or the tail". \<open>lt\<close> is the comparison the caller passes; it is asked whether the
  new element \<open>x\<close> is less than the entry \<open>e\<close>.
\<close>

fun list_insert_ordered :: "'a list \<Rightarrow> 'a \<Rightarrow> ('a \<Rightarrow> 'a \<Rightarrow> bool) \<Rightarrow> 'a list" where
  "list_insert_ordered [] x lt = [x]"
| "list_insert_ordered (e # es) x lt =
     (if lt x e then x # e # es else e # list_insert_ordered es x lt)"

subsection \<open>Tick counter\<close>

definition timer_ticks :: "timer_state \<Rightarrow> int64_t \<times> timer_state" where
  "timer_ticks s =
     (let (old_level, s1) = intr_disable s;
          tk = ticks s1;
          s2 = intr_set_level old_level s1
      in (tk, s2))"

definition timer_elapsed :: "int64_t \<Rightarrow> timer_state \<Rightarrow> int64_t \<times> timer_state" where
  "timer_elapsed then0 s = (let (tk, s1) = timer_ticks s in (tk - then0, s1))"

subsection \<open>Sleeping\<close>

definition compare_wake_up_time :: "sleeping_thread \<Rightarrow> sleeping_thread \<Rightarrow> bool" where
  "compare_wake_up_time st_a st_b \<longleftrightarrow> wake_up_time st_a <s wake_up_time st_b"

text \<open>
  \<^verbatim>\<open>timer_sleep\<close>, called by thread \<open>cur\<close> (the value of \<^verbatim>\<open>thread_current ()\<close>).
  The result is the state at the moment the caller is blocked.
\<close>

definition timer_sleep :: "tid \<Rightarrow> int64_t \<Rightarrow> timer_state \<Rightarrow> error + timer_state" where
  "timer_sleep cur n s =
     (if n \<le>s 0 then Inr s
      else
        let (start, s0) = timer_ticks s;
            wake = start + n;
            s1 = lock_acquire s0
        in case malloc s1 of
             None \<Rightarrow> Inl Panic
           | Some s2 \<Rightarrow>
               let st = \<lparr>t = cur, wake_up_time = wake\<rparr>;
                   q = sleeping_threads_list s2;
                   q' = (if list_empty q then list_push_back q st
                         else list_insert_ordered q st compare_wake_up_time);
                   s3 = s2\<lparr>sleeping_threads_list := q', calls := calls s2 @ [ListInsert cur]\<rparr>;
                   s4 = lock_release s3
               in Inr (thread_block cur s4))"

text \<open>
  The insertion in the spec's words, for comparison: "insert a new SleepEntry for the
  calling thread, maintaining sort order", one ordered insertion whatever the list
  holds.
\<close>

definition timer_sleep_uniform :: "tid \<Rightarrow> int64_t \<Rightarrow> timer_state \<Rightarrow> error + timer_state" where
  "timer_sleep_uniform cur n s =
     (if n \<le>s 0 then Inr s
      else
        let (start, s0) = timer_ticks s;
            wake = start + n;
            s1 = lock_acquire s0
        in case malloc s1 of
             None \<Rightarrow> Inl Panic
           | Some s2 \<Rightarrow>
               let st = \<lparr>t = cur, wake_up_time = wake\<rparr>;
                   q' = list_insert_ordered (sleeping_threads_list s2) st compare_wake_up_time;
                   s3 = s2\<lparr>sleeping_threads_list := q', calls := calls s2 @ [ListInsert cur]\<rparr>;
                   s4 = lock_release s3
               in Inr (thread_block cur s4))"

subsection \<open>Busy waiting\<close>

lemma sint_pred_pos: "0 <s (x :: int64_t) \<Longrightarrow> sint (x - 1) = sint x - 1"
proof -
  assume "0 <s x"
  then have pos: "0 < sint x" by (simp add: word_sless_alt)
  have up: "sint x < 2 ^ 63" using sint_lt [of x] by simp
  have "sint (x - 1) = signed_take_bit 63 (sint x - 1)"
    by (simp add: sint_word_ariths)
  also have "\<dots> = sint x - 1"
    using pos up by (intro signed_take_bit_int_eq_self) simp_all
  finally show ?thesis .
qed

text \<open>
  \<^verbatim>\<open>while (loops-- > 0) barrier ();\<close> The result is the number of times the loop body
  ran. The test reads \<^verbatim>\<open>loops\<close> before the decrement.
\<close>

function busy_wait :: "int64_t \<Rightarrow> nat" where
  "busy_wait loops = (if 0 <s loops then Suc (busy_wait (loops - 1)) else 0)"
  by pat_completeness auto
termination
  by (relation "measure (\<lambda>loops. nat (sint loops))")
    (simp_all add: sint_pred_pos, simp add: word_sless_alt)

declare busy_wait.simps [simp del]

text \<open>
  \<^verbatim>\<open>TIMER_FREQ\<close> is a macro of devices/timer.h, which is not part of the sources: it is
  the parameter \<open>freq\<close> of every function that uses it, already converted to
  \<^verbatim>\<open>int64_t\<close> as C's arithmetic conversions do. timer.c refuses to compile unless
  \<open>19 \<le> freq \<le> 1000\<close>.
\<close>

definition freq_ok :: "int64_t \<Rightarrow> bool" where
  "freq_ok freq \<longleftrightarrow> 19 \<le>s freq \<and> freq \<le>s 1000"

definition real_time_delay :: "int64_t \<Rightarrow> int64_t \<Rightarrow> int32_t \<Rightarrow> timer_state \<Rightarrow> error + timer_state" where
  "real_time_delay freq num denom s =
     (if smod32 denom 1000 \<noteq> 0 then Inl AssertionFailure
      else
        let scaled = sdiv64 (ucast (loops_per_tick s) * num) 1000 * freq;
            d = scast (sdiv32 denom 1000)
        in if div_traps scaled d then Inl DivideError
           else Inr (s\<lparr>calls := calls s @ [BusyWait (busy_wait (sdiv64 scaled d))]\<rparr>))"

definition real_time_sleep ::
  "int64_t \<Rightarrow> tid \<Rightarrow> int64_t \<Rightarrow> int32_t \<Rightarrow> timer_state \<Rightarrow> error + timer_state" where
  "real_time_sleep freq cur num denom s =
     (if div_traps (num * freq) (scast denom) then Inl DivideError
      else
        let tk = sdiv64 (num * freq) (scast denom)
        in if level s \<noteq> INTR_ON then Inl AssertionFailure
           else if 0 <s tk then timer_sleep cur tk s
           else real_time_delay freq num denom s)"

definition timer_msleep :: "int64_t \<Rightarrow> tid \<Rightarrow> int64_t \<Rightarrow> timer_state \<Rightarrow> error + timer_state" where
  "timer_msleep freq cur ms s = real_time_sleep freq cur ms 1000 s"

definition timer_usleep :: "int64_t \<Rightarrow> tid \<Rightarrow> int64_t \<Rightarrow> timer_state \<Rightarrow> error + timer_state" where
  "timer_usleep freq cur us s = real_time_sleep freq cur us (1000 * 1000) s"

definition timer_nsleep :: "int64_t \<Rightarrow> tid \<Rightarrow> int64_t \<Rightarrow> timer_state \<Rightarrow> error + timer_state" where
  "timer_nsleep freq cur ns s = real_time_sleep freq cur ns (1000 * 1000 * 1000) s"

definition timer_mdelay :: "int64_t \<Rightarrow> int64_t \<Rightarrow> timer_state \<Rightarrow> error + timer_state" where
  "timer_mdelay freq ms s = real_time_delay freq ms 1000 s"

definition timer_udelay :: "int64_t \<Rightarrow> int64_t \<Rightarrow> timer_state \<Rightarrow> error + timer_state" where
  "timer_udelay freq us s = real_time_delay freq us (1000 * 1000) s"

definition timer_ndelay :: "int64_t \<Rightarrow> int64_t \<Rightarrow> timer_state \<Rightarrow> error + timer_state" where
  "timer_ndelay freq ns s = real_time_delay freq ns (1000 * 1000 * 1000) s"

subsection \<open>Waking up\<close>

text \<open>
  The inner loop of \<^verbatim>\<open>timer_wakeup\<close>: while the list is not empty, look at the front;
  stop when it is not yet due, else pop it, unblock its thread and free it.
\<close>

function wakeup_loop :: "int64_t \<Rightarrow> timer_state \<Rightarrow> timer_state" where
  "wakeup_loop now s =
     (if list_empty (sleeping_threads_list s) then s
      else
        let st = list_front (sleeping_threads_list s)
        in if now <s wake_up_time st then s
           else
             let s1 = s\<lparr>sleeping_threads_list := list_pop_front (sleeping_threads_list s),
                        calls := calls s @ [ListPop (t st)]\<rparr>;
                 s2 = thread_unblock (t st) s1;
                 s3 = free s2
             in wakeup_loop now s3)"
  by pat_completeness auto
termination
  by (relation "measure (\<lambda>(now, s). length (sleeping_threads_list s))")
    (auto simp: list_empty_def list_pop_front_def thread_unblock_def free_def)

declare wakeup_loop.simps [simp del]

text \<open>The body of \<^verbatim>\<open>if (wakeup_needed)\<close> in \<^verbatim>\<open>timer_wakeup\<close>.\<close>

definition timer_wakeup_pass :: "timer_state \<Rightarrow> timer_state" where
  "timer_wakeup_pass s =
     (let s1 = s\<lparr>wakeup_needed := False\<rparr>;
          s2 = lock_acquire s1;
          (now, s3) = timer_ticks s2;
          s4 = wakeup_loop now s3
      in lock_release s4)"

text \<open>One turn of \<^verbatim>\<open>while (true)\<close> in \<^verbatim>\<open>timer_wakeup\<close>.\<close>

definition timer_wakeup_iter :: "int64_t \<Rightarrow> tid \<Rightarrow> timer_state \<Rightarrow> error + timer_state" where
  "timer_wakeup_iter freq cur s =
     (let s1 = (if wakeup_needed s then timer_wakeup_pass s else s);
          (old_level, s2) = intr_enable s1
      in case timer_msleep freq cur 1 s2 of
           Inl e \<Rightarrow> Inl e
         | Inr s3 \<Rightarrow> Inr (intr_set_level old_level s3))"

text \<open>
  \<^verbatim>\<open>timer_wakeup\<close>: the loop has no exit, so the function is defined as a partial
  function; \<open>None\<close> is "no result". \<open>cur\<close> is the thread that was running when
  the function was entered.
\<close>

partial_function (option) timer_wakeup ::
  "int64_t \<Rightarrow> tid \<Rightarrow> timer_state \<Rightarrow> (error + timer_state) option" where
  "timer_wakeup freq cur s =
     (case timer_wakeup_iter freq cur s of
        Inl e \<Rightarrow> Some (Inl e)
      | Inr s' \<Rightarrow> timer_wakeup freq cur s')"

subsection \<open>The interrupt handler\<close>

definition timer_interrupt :: "int64_t \<Rightarrow> tid \<Rightarrow> timer_state \<Rightarrow> (error + timer_state) option" where
  "timer_interrupt freq cur s =
     (let s1 = s\<lparr>ticks := ticks s + 1\<rparr>;
          s2 = thread_tick s1
      in case timer_wakeup freq cur s2 of
           None \<Rightarrow> None
         | Some (Inl e) \<Rightarrow> Some (Inl e)
         | Some (Inr s3) \<Rightarrow> Some (Inr (s3\<lparr>wakeup_needed := True\<rparr>)))"

subsection \<open>Calibration\<close>

text \<open>
  The first loop of \<^verbatim>\<open>timer_calibrate\<close> doubles \<^verbatim>\<open>loops_per_tick\<close> while
  twice its value is not too many loops; the assertion fails when the doubling has
  shifted every bit out. The second loop is the \<^verbatim>\<open>for\<close> over \<^verbatim>\<open>test_bit\<close>.
\<close>

lemma push_bit_least_decreases:
  assumes "push_bit 1 (lpt :: unsigned) \<noteq> 0"
  shows "(LEAST n. push_bit n (push_bit 1 lpt :: unsigned) = 0) < (LEAST n. push_bit n lpt = 0)"
proof -
  let ?m = "LEAST n. push_bit n lpt = 0"
  have ex: "push_bit 32 lpt = 0" by (simp add: push_bit_word_beyond)
  then have m0: "push_bit ?m lpt = 0" by (rule LeastI)
  have "?m \<noteq> 0"
  proof
    assume "?m = 0"
    with m0 have "lpt = 0" by simp
    with assms show False by simp
  qed
  then obtain m' where m': "?m = Suc m'" by (cases ?m) simp_all
  have "push_bit m' (push_bit 1 lpt) = push_bit ?m lpt"
    by (simp add: m' push_bit_push_bit)
  with m0 have "push_bit m' (push_bit 1 lpt) = 0" by simp
  then have "(LEAST n. push_bit n (push_bit 1 lpt) = 0) \<le> m'" by (rule Least_le)
  with m' show ?thesis by simp
qed

text \<open>
  \<^verbatim>\<open>too_many_loops\<close> waits for a tick and reports whether that many turns of
  \<^verbatim>\<open>busy_wait\<close> outlast the next one. Its answer is a measurement of the machine's
  speed against the timer interrupt: it is the parameter \<open>too_many_loops\<close> of the
  calibration.
\<close>

function calibrate_search :: "(unsigned \<Rightarrow> bool) \<Rightarrow> unsigned \<Rightarrow> error + unsigned" where
  "calibrate_search too_many_loops lpt =
     (if too_many_loops (push_bit 1 lpt) then Inr lpt
      else
        let lpt' = push_bit 1 lpt
        in if lpt' = 0 then Inl AssertionFailure
           else calibrate_search too_many_loops lpt')"
  by pat_completeness auto
termination
proof (relation "measure (\<lambda>(f, lpt). LEAST n. push_bit n lpt = 0)")
  show "wf (measure (\<lambda>(f, lpt :: unsigned). LEAST n. push_bit n lpt = 0))"
    by simp
next
  fix too_many_loops :: "unsigned \<Rightarrow> bool" and lpt x :: unsigned
  assume "x = push_bit 1 lpt" and "x \<noteq> 0"
  then show "((too_many_loops, x), (too_many_loops, lpt))
      \<in> measure (\<lambda>(f, lpt). LEAST n. push_bit n lpt = 0)"
    using push_bit_least_decreases [of lpt] by simp
qed

declare calibrate_search.simps [simp del]

text \<open>
  The body of the \<^verbatim>\<open>for\<close> loop:
  \<^verbatim>\<open>if (!too_many_loops (loops_per_tick | test_bit)) loops_per_tick |= test_bit;\<close>
\<close>

definition refine_step :: "(unsigned \<Rightarrow> bool) \<Rightarrow> unsigned \<Rightarrow> unsigned \<Rightarrow> unsigned" where
  "refine_step too_many_loops lpt test_bit =
     (if \<not> too_many_loops (lpt OR test_bit) then lpt OR test_bit else lpt)"

text \<open>
  The loop runs until \<^verbatim>\<open>test_bit\<close> equals \<^verbatim>\<open>high_bit >> 10\<close>; as a function
  of arbitrary arguments it need not return, so it is a partial function.
\<close>

partial_function (option) calibrate_refine ::
  "(unsigned \<Rightarrow> bool) \<Rightarrow> unsigned \<Rightarrow> unsigned \<Rightarrow> unsigned \<Rightarrow> unsigned option" where
  "calibrate_refine too_many_loops high_bit test_bit lpt =
     (if test_bit = drop_bit 10 high_bit then Some lpt
      else calibrate_refine too_many_loops high_bit (drop_bit 1 test_bit)
             (refine_step too_many_loops lpt test_bit))"

definition timer_calibrate ::
  "(unsigned \<Rightarrow> bool) \<Rightarrow> timer_state \<Rightarrow> (error + timer_state) option" where
  "timer_calibrate too_many_loops s =
     (if level s \<noteq> INTR_ON then Some (Inl AssertionFailure)
      else
        case calibrate_search too_many_loops (push_bit 10 1) of
          Inl e \<Rightarrow> Some (Inl e)
        | Inr high_bit \<Rightarrow>
            (case calibrate_refine too_many_loops high_bit (drop_bit 1 high_bit) high_bit of
               None \<Rightarrow> None
             | Some lpt \<Rightarrow> Some (Inr (s\<lparr>loops_per_tick := lpt\<rparr>))))"

subsection \<open>Histories\<close>

text \<open>
  A history is a sequence of calls of \<^verbatim>\<open>timer_sleep\<close> by threads, of increments of
  the tick counter (the \<^verbatim>\<open>ticks++\<close> of \<^verbatim>\<open>timer_interrupt\<close>) and of passes of
  the wake-up code, run one after the other; it stops at the first error. Histories
  are more than the program can do: \<open>Wakeup\<close> runs the scan of \<^verbatim>\<open>timer_wakeup\<close>
  whether or not \<^verbatim>\<open>wakeup_needed\<close> is set, and \<open>Tick\<close> is the increment
  without the rest of the handler. They serve for what must hold of the list whatever
  order insertions and removals come in; what the program itself does is the subject
  of the executions further down.
\<close>

datatype op = Sleep tid int64_t | Tick | Wakeup

fun step :: "op \<Rightarrow> timer_state \<Rightarrow> error + timer_state" where
  "step (Sleep c n) s = timer_sleep c n s"
| "step Tick s = Inr (s\<lparr>ticks := ticks s + 1\<rparr>)"
| "step Wakeup s = Inr (timer_wakeup_pass s)"

fun run :: "op list \<Rightarrow> timer_state \<Rightarrow> error + timer_state" where
  "run [] s = Inr s"
| "run (x # xs) s = (case step x s of Inl e \<Rightarrow> Inl e | Inr s' \<Rightarrow> run xs s')"

text \<open>The entries the calls of \<^verbatim>\<open>timer_sleep\<close> in a history create, in the order of the calls.\<close>

definition new_request :: "op \<Rightarrow> timer_state \<Rightarrow> sleeping_thread list" where
  "new_request x s =
     (case x of
        Sleep c n \<Rightarrow> (if 0 <s n then [\<lparr>t = c, wake_up_time = ticks s + n\<rparr>] else [])
      | _ \<Rightarrow> [])"

fun requests :: "op list \<Rightarrow> timer_state \<Rightarrow> sleeping_thread list" where
  "requests [] s = []"
| "requests (x # xs) s =
     new_request x s @ (case step x s of Inl e \<Rightarrow> [] | Inr s' \<Rightarrow> requests xs s')"

text \<open>The list is in ascending order of wake-up time, compared as \<^verbatim>\<open>int64_t\<close>.\<close>

definition queue_sorted :: "sleeping_thread list \<Rightarrow> bool" where
  "queue_sorted q \<longleftrightarrow> sorted_wrt (\<lambda>a b. wake_up_time a \<le>s wake_up_time b) q"

text \<open>An entry is due at tick \<open>now\<close> when its wake-up time is not after \<open>now\<close>.\<close>

definition due :: "int64_t \<Rightarrow> sleeping_thread \<Rightarrow> bool" where
  "due now st \<longleftrightarrow> wake_up_time st \<le>s now"

text \<open>
  The calls the inner loop of \<^verbatim>\<open>timer_wakeup\<close> makes for the entries \<open>q\<close> it
  takes off the list: each is popped, then its thread is unblocked.
\<close>

definition wake_calls :: "sleeping_thread list \<Rightarrow> event list" where
  "wake_calls q = concat (map (\<lambda>st. [ListPop (t st), ThreadUnblock (t st)]) q)"

subsection \<open>The lock along the log of calls\<close>

text \<open>
  The lock is held from a \<open>LockAcquire\<close> to the next \<open>LockRelease\<close>.
  \<open>lock_held held es\<close> is the state of the lock after the calls \<open>es\<close>, started in
  state \<open>held\<close>; \<open>never_under_lock crit held es\<close> says that no call in \<open>es\<close>
  that \<open>crit\<close> selects is made while the lock is held.
\<close>

definition lock_after :: "bool \<Rightarrow> event \<Rightarrow> bool" where
  "lock_after held e = (case e of LockAcquire \<Rightarrow> True | LockRelease \<Rightarrow> False | _ \<Rightarrow> held)"

fun lock_held :: "bool \<Rightarrow> event list \<Rightarrow> bool" where
  "lock_held held [] = held"
| "lock_held held (e # es) = lock_held (lock_after held e) es"

fun never_under_lock :: "(event \<Rightarrow> bool) \<Rightarrow> bool \<Rightarrow> event list \<Rightarrow> bool" where
  "never_under_lock crit held [] = True"
| "never_under_lock crit held (e # es) =
     (\<not> (crit e \<and> held) \<and> never_under_lock crit (lock_after held e) es)"

text \<open>
  \<open>only_under_lock crit held es\<close> says that every call in \<open>es\<close> that \<open>crit\<close>
  selects is made while the lock is held.
\<close>

fun only_under_lock :: "(event \<Rightarrow> bool) \<Rightarrow> bool \<Rightarrow> event list \<Rightarrow> bool" where
  "only_under_lock crit held [] = True"
| "only_under_lock crit held (e # es) =
     (\<not> (crit e \<and> \<not> held) \<and> only_under_lock crit (lock_after held e) es)"

definition suspends_or_resumes :: "event \<Rightarrow> bool" where
  "suspends_or_resumes e =
     (case e of ThreadBlock c \<Rightarrow> True | ThreadUnblock c \<Rightarrow> True | _ \<Rightarrow> False)"

definition mutates :: "event \<Rightarrow> bool" where
  "mutates e = (case e of ListInsert c \<Rightarrow> True | ListPop c \<Rightarrow> True | _ \<Rightarrow> False)"

definition resumes :: "event \<Rightarrow> bool" where
  "resumes e = (case e of ThreadUnblock c \<Rightarrow> True | _ \<Rightarrow> False)"

text \<open>
  A log is in order when no thread is blocked or unblocked under the lock, the list is
  changed only under the lock, and the lock is free at the end.
\<close>

definition log_in_order :: "event list \<Rightarrow> bool" where
  "log_in_order es \<longleftrightarrow>
     never_under_lock suspends_or_resumes False es \<and>
     only_under_lock mutates False es \<and>
     \<not> lock_held False es"

subsection \<open>Executions of the program\<close>

text \<open>
  What the kernel can do with the timer, one action after the other. A thread calls
  \<^verbatim>\<open>timer_sleep\<close>, a sleep wrapper (\<^verbatim>\<open>real_time_sleep\<close> with the wrapper's
  denominator), a delay wrapper (\<^verbatim>\<open>real_time_delay\<close>) or \<^verbatim>\<open>timer_calibrate\<close>;
  the interrupt level changes; the timer interrupt arrives. The handler is there as a
  whole, \<open>Interrupt\<close>, and in the pieces it runs through: \<open>Interrupt_entry\<close> is
  \<^verbatim>\<open>ticks++\<close> and \<^verbatim>\<open>thread_tick ()\<close>, and each \<open>Wakeup_turn\<close> after it is one
  turn of the loop of \<^verbatim>\<open>timer_wakeup\<close>, so that the states of a handler that has not
  returned are states of an execution too. \<^verbatim>\<open>wakeup_needed = true\<close> is part of
  \<open>Interrupt\<close> alone, as in the code, where it follows the call of
  \<^verbatim>\<open>timer_wakeup\<close>. \<^verbatim>\<open>timer_ticks\<close> and \<^verbatim>\<open>timer_elapsed\<close> leave the state
  as it is and are no actions. An execution stops at the first error, and is \<open>None\<close>
  when an action does not return.
\<close>

datatype action =
    Call_timer_sleep tid int64_t
  | Call_real_time_sleep tid int64_t int32_t
  | Call_real_time_delay int64_t int32_t
  | Call_timer_calibrate "unsigned \<Rightarrow> bool"
  | Set_intr_level intr_level
  | Interrupt_entry
  | Wakeup_turn tid
  | Interrupt tid

fun exec :: "int64_t \<Rightarrow> action \<Rightarrow> timer_state \<Rightarrow> (error + timer_state) option" where
  "exec freq (Call_timer_sleep c n) s = Some (timer_sleep c n s)"
| "exec freq (Call_real_time_sleep c num denom) s = Some (real_time_sleep freq c num denom s)"
| "exec freq (Call_real_time_delay num denom) s = Some (real_time_delay freq num denom s)"
| "exec freq (Call_timer_calibrate too_many_loops) s = timer_calibrate too_many_loops s"
| "exec freq (Set_intr_level l) s = Some (Inr (intr_set_level l s))"
| "exec freq Interrupt_entry s = Some (Inr (thread_tick (s\<lparr>ticks := ticks s + 1\<rparr>)))"
| "exec freq (Wakeup_turn c) s = Some (timer_wakeup_iter freq c s)"
| "exec freq (Interrupt c) s = timer_interrupt freq c s"

fun execs :: "int64_t \<Rightarrow> action list \<Rightarrow> timer_state \<Rightarrow> (error + timer_state) option" where
  "execs freq [] s = Some (Inr s)"
| "execs freq (a # acts) s =
     (case exec freq a s of
        None \<Rightarrow> None
      | Some (Inl e) \<Rightarrow> Some (Inl e)
      | Some (Inr s') \<Rightarrow> execs freq acts s')"

text \<open>
  What an action may add to the state: calls that are in order, none of them an
  unblock, with \<^verbatim>\<open>wakeup_needed\<close> left as it is.
\<close>

definition adds_in_order :: "timer_state \<Rightarrow> timer_state \<Rightarrow> bool" where
  "adds_in_order s s' \<longleftrightarrow>
     wakeup_needed s' = wakeup_needed s \<and>
     (\<exists>seg. calls s' = calls s @ seg \<and> log_in_order seg \<and> filter resumes seg = [])"

subsection \<open>The conversion in the spec's words\<close>

text \<open>
  "Convert the requested duration to whole ticks, rounding down": the floor of
  \<open>num \<cdot> TIMER_FREQ / denom\<close> over the integers (\<open>div\<close> on \<open>int\<close> rounds down).
\<close>

definition ticks_rounded_down :: "int64_t \<Rightarrow> int64_t \<Rightarrow> int32_t \<Rightarrow> int" where
  "ticks_rounded_down freq num denom = (sint num * sint freq) div sint denom"

text \<open>The denominators the three wrappers pass to \<^verbatim>\<open>real_time_sleep\<close>.\<close>

definition wrapper_denom :: "int32_t \<Rightarrow> bool" where
  "wrapper_denom denom \<longleftrightarrow> denom = 1000 \<or> denom = 1000000 \<or> denom = 1000000000"

text \<open>
  The routing in the spec's words: "if the resulting tick count is \<open>\<ge> 1\<close>, delegate
  to \<^verbatim>\<open>sleep_for_ticks\<close>; otherwise fall back to a busy-wait". The tick count is the
  rounded-down one; the busy-wait is the call of \<^verbatim>\<open>busy_wait\<close> that
  \<^verbatim>\<open>real_time_delay\<close> makes, and nothing else.
\<close>

definition sleep_rounded_down ::
  "int64_t \<Rightarrow> tid \<Rightarrow> int64_t \<Rightarrow> int32_t \<Rightarrow> timer_state \<Rightarrow> error + timer_state" where
  "sleep_rounded_down freq cur num denom s =
     (if 1 \<le> ticks_rounded_down freq num denom
      then timer_sleep cur (word_of_int (ticks_rounded_down freq num denom)) s
      else Inr (s\<lparr>calls := calls s @
        [BusyWait (busy_wait (sdiv64 (sdiv64 (ucast (loops_per_tick s) * num) 1000 * freq)
           (scast (sdiv32 denom 1000))))]\<rparr>))"

section \<open>Properties\<close>

lemma timer_ticks_eq: "timer_ticks s = (ticks s, s)"
  by (simp add: timer_ticks_def intr_disable_def intr_set_level_def)

text \<open>
  C5. For every \<open>n \<le> 0\<close>, \<^verbatim>\<open>timer_sleep (n)\<close> returns at once: the state after the
  call is the state before it, so nothing is enqueued, no lock call and no block call
  is made, and no other variable changes.
\<close>

theorem timer_sleep_nonpositive_noop:
  "n \<le>s 0 \<Longrightarrow> timer_sleep cur n s = Inr s"
  by (simp add: timer_sleep_def)

theorem timer_sleep_nonpositive_noop_witness:
  "(- 3 :: int64_t) \<le>s 0 \<and> timer_sleep 1 (- 3) (timer_init INTR_ON 4) = Inr (timer_init INTR_ON 4)"
  using timer_sleep_nonpositive_noop [of "- 3" 1 "timer_init INTR_ON 4"]
  by (simp add: word_sle_eq)

text \<open>
  C10. The empty-list case of \<^verbatim>\<open>timer_sleep\<close> (push at the back) yields the list the
  ordered insertion yields on an empty list, so \<^verbatim>\<open>timer_sleep\<close> is the function
  that always inserts in order.
\<close>

theorem timer_sleep_empty_case_uniform:
  "timer_sleep cur n s = timer_sleep_uniform cur n s"
  by (simp add: timer_sleep_def timer_sleep_uniform_def list_empty_def list_push_back_def
      Let_def split: option.split prod.split)

theorem timer_sleep_empty_case_uniform_witness:
  "timer_sleep 1 5 (timer_init INTR_ON 4) = timer_sleep_uniform 1 5 (timer_init INTR_ON 4)"
  using timer_sleep_empty_case_uniform [of 1 5 "timer_init INTR_ON 4"] by simp

subsection \<open>Closed forms of the loops\<close>

lemma busy_wait_eq: "busy_wait loops = nat (sint loops)"
proof (induction loops rule: busy_wait.induct)
  case (1 loops)
  show ?case
  proof (cases "0 <s loops")
    case True
    then have "busy_wait loops = Suc (nat (sint (loops - 1)))"
      using 1 by (subst busy_wait.simps) simp
    also have "\<dots> = nat (sint loops)"
      using True by (simp add: sint_pred_pos word_sless_alt)
    finally show ?thesis .
  next
    case False
    then show ?thesis by (subst busy_wait.simps) (simp add: word_sless_alt)
  qed
qed

lemma wakeup_loop_eq:
  "wakeup_loop now s =
     s\<lparr>sleeping_threads_list := dropWhile (due now) (sleeping_threads_list s),
       heap_blocks := heap_blocks s + length (takeWhile (due now) (sleeping_threads_list s)),
       calls := calls s @ wake_calls (takeWhile (due now) (sleeping_threads_list s))\<rparr>"
proof (induction now s rule: wakeup_loop.induct)
  case (1 now s)
  show ?case
  proof (cases "sleeping_threads_list s")
    case Nil
    then show ?thesis by (subst wakeup_loop.simps) (simp add: list_empty_def wake_calls_def)
  next
    case (Cons st rest)
    show ?thesis
    proof (cases "now <s wake_up_time st")
      case True
      then show ?thesis using Cons
        by (subst wakeup_loop.simps)
          (simp add: list_empty_def list_front_def due_def signed.not_le wake_calls_def)
    next
      case False
      then have d: "due now st" by (simp add: due_def signed.not_less)
      show ?thesis
        apply (subst wakeup_loop.simps)
        using Cons False d 1
        by (simp add: list_empty_def list_front_def list_pop_front_def thread_unblock_def
            free_def Let_def wake_calls_def)
    qed
  qed
qed

lemma timer_wakeup_pass_eq:
  "timer_wakeup_pass s =
     s\<lparr>sleeping_threads_list := dropWhile (due (ticks s)) (sleeping_threads_list s),
       wakeup_needed := False,
       heap_blocks := heap_blocks s + length (takeWhile (due (ticks s)) (sleeping_threads_list s)),
       calls := calls s @ LockAcquire #
         wake_calls (takeWhile (due (ticks s)) (sleeping_threads_list s)) @ [LockRelease]\<rparr>"
  by (simp add: timer_wakeup_pass_def timer_ticks_eq wakeup_loop_eq lock_acquire_def
      lock_release_def)

lemma timer_sleep_pos:
  assumes "0 <s n" and "heap_blocks s \<noteq> 0"
  shows "timer_sleep cur n s =
     Inr (s\<lparr>sleeping_threads_list :=
              list_insert_ordered (sleeping_threads_list s)
                \<lparr>t = cur, wake_up_time = ticks s + n\<rparr> compare_wake_up_time,
            heap_blocks := heap_blocks s - 1,
            calls := calls s @ [LockAcquire, ListInsert cur, LockRelease, ThreadBlock cur]\<rparr>)"
proof -
  from assms(1) have "\<not> n \<le>s 0" by (simp add: signed.not_le)
  then show ?thesis
    using assms(2)
    by (cases "sleeping_threads_list s")
      (simp_all add: timer_sleep_def timer_ticks_eq lock_acquire_def malloc_def
        lock_release_def thread_block_def list_empty_def list_push_back_def Let_def)
qed

lemma timer_sleep_nomem:
  assumes "0 <s n" and "heap_blocks s = 0"
  shows "timer_sleep cur n s = Inl Panic"
proof -
  from assms(1) have "\<not> n \<le>s 0" by (simp add: signed.not_le)
  then show ?thesis
    using assms(2)
    by (simp add: timer_sleep_def timer_ticks_eq lock_acquire_def malloc_def)
qed

lemma set_list_insert_ordered: "set (list_insert_ordered q x lt) = insert x (set q)"
  by (induction q) auto

lemma sint_add_no_overflow:
  assumes "0 <s (n :: int64_t)" and "sint a + sint n < 2 ^ 63"
  shows "sint (a + n) = sint a + sint n"
proof -
  from assms(1) have pos: "0 < sint n" by (simp add: word_sless_alt)
  have lo: "- (2 ^ 63) \<le> sint a" using sint_ge [of a] by simp
  have "sint (a + n) = signed_take_bit 63 (sint a + sint n)"
    by (simp add: sint_word_ariths)
  also have "\<dots> = sint a + sint n"
    using pos lo assms(2) by (intro signed_take_bit_int_eq_self) simp_all
  finally show ?thesis .
qed

lemma dropWhile_due_sorted:
  assumes "queue_sorted q"
  shows "\<forall>st \<in> set (dropWhile (due now) q). now <s wake_up_time st"
proof
  fix st assume st: "st \<in> set (dropWhile (due now) q)"
  show "now <s wake_up_time st"
  proof (cases "dropWhile (due now) q")
    case Nil
    with st show ?thesis by simp
  next
    case (Cons y ys)
    then have ny: "\<not> due now y" using hd_dropWhile [of "due now" q] by simp
    have "q = takeWhile (due now) q @ y # ys" using Cons takeWhile_dropWhile_id [of "due now" q] by simp
    with assms have "sorted_wrt (\<lambda>a b. wake_up_time a \<le>s wake_up_time b) (takeWhile (due now) q @ y # ys)"
      by (simp add: queue_sorted_def)
    then have "\<forall>z \<in> set ys. wake_up_time y \<le>s wake_up_time z"
      by (simp add: sorted_wrt_append)
    moreover from ny have "now <s wake_up_time y" by (simp add: due_def signed.not_le)
    ultimately show ?thesis using st Cons by (auto intro: signed.less_le_trans)
  qed
qed

subsection \<open>The interrupt handler does not return\<close>

lemma timer_wakeup_result_is_error:
  assumes "timer_wakeup freq cur s = Some r"
  shows "isl r"
proof (rule timer_wakeup.raw_induct [where P = "\<lambda>freq cur s r. isl r", OF _ assms])
  fix tw freq cur s r
  assume IH: "\<And>freq cur s r. tw freq cur s = Some r \<Longrightarrow> isl r"
    and body: "(case timer_wakeup_iter freq cur s of Inl e \<Rightarrow> Some (Inl e)
               | Inr s' \<Rightarrow> tw freq cur s') = Some r"
  show "isl r"
  proof (cases "timer_wakeup_iter freq cur s")
    case (Inl e)
    with body have "r = Inl e" by simp
    then show ?thesis by simp
  next
    case (Inr s')
    with body have "tw freq cur s' = Some r" by simp
    then show ?thesis by (rule IH)
  qed
qed

lemma sdiv64_freq_1000:
  assumes "freq_ok freq" and "freq \<noteq> 1000"
  shows "sdiv64 freq (scast (1000 :: int32_t)) = 0"
proof -
  have rt: "word_of_int (sint freq) = freq" by simp
  from assms(1) have "19 \<le> sint freq" and "sint freq \<le> 1000"
    by (simp_all add: freq_ok_def word_sle_eq)
  moreover have "sint freq \<noteq> 1000"
  proof
    assume "sint freq = 1000"
    with rt have "freq = 1000" by simp
    with assms(2) show False by simp
  qed
  ultimately have "19 \<le> sint freq" and "sint freq < 1000" by simp_all
  then have "sint freq sdiv 1000 = 0"
    by (simp add: signed_divide_int_def sgn_if)
  then show ?thesis by (simp add: sdiv64_def)
qed

lemma timer_msleep_1_busy_waits:
  assumes "freq_ok freq" and "freq \<noteq> 1000" and "level s = INTR_ON"
  shows "timer_msleep freq cur 1 s =
    Inr (s\<lparr>calls := calls s @
      [BusyWait (busy_wait (sdiv64 (sdiv64 (ucast (loops_per_tick s)) 1000 * freq) 1))]\<rparr>)"
proof -
  have tk: "sdiv64 freq (scast (1000 :: int32_t)) = 0"
    using assms(1,2) by (rule sdiv64_freq_1000)
  have m: "smod32 1000 1000 = 0"
    by (simp add: smod32_def signed_modulo_int_def)
  have d: "sdiv32 1000 1000 = 1"
    by (simp add: sdiv32_def signed_divide_int_def)
  show ?thesis
    using assms(3) tk m d
    by (simp add: timer_msleep_def real_time_sleep_def real_time_delay_def div_traps_def)
qed

lemma timer_wakeup_iter_returns:
  assumes "freq_ok freq" and "freq \<noteq> 1000"
  shows "\<exists>s'. timer_wakeup_iter freq cur s = Inr s'"
proof -
  define s1 where "s1 = (if wakeup_needed s then timer_wakeup_pass s else s)"
  have "level (s1\<lparr>level := INTR_ON\<rparr>) = INTR_ON" by simp
  from timer_msleep_1_busy_waits [OF assms this]
  show ?thesis
    by (simp add: timer_wakeup_iter_def intr_enable_def s1_def [symmetric])
qed

lemma timer_wakeup_diverges:
  assumes "freq_ok freq" and "freq \<noteq> 1000"
  shows "timer_wakeup freq cur s = None"
proof (rule ccontr)
  assume "timer_wakeup freq cur s \<noteq> None"
  then obtain r where r: "timer_wakeup freq cur s = Some r" by auto
  have "\<not> (freq_ok freq \<and> freq \<noteq> 1000)"
  proof (rule timer_wakeup.raw_induct
      [where P = "\<lambda>freq cur s r. \<not> (freq_ok freq \<and> freq \<noteq> 1000)", OF _ r])
    fix tw freq cur s r
    assume IH: "\<And>freq cur s r. tw freq cur s = Some r \<Longrightarrow> \<not> (freq_ok freq \<and> freq \<noteq> 1000)"
      and body: "(case timer_wakeup_iter freq cur s of Inl e \<Rightarrow> Some (Inl e)
                 | Inr s' \<Rightarrow> tw freq cur s') = Some r"
    show "\<not> (freq_ok freq \<and> freq \<noteq> 1000)"
    proof
      assume ok: "freq_ok freq \<and> freq \<noteq> 1000"
      then obtain s' where "timer_wakeup_iter freq cur s = Inr s'"
        using timer_wakeup_iter_returns [of freq cur s] by blast
      with body have "tw freq cur s' = Some r" by simp
      from IH [OF this] ok show False by simp
    qed
  qed
  with assms show False by simp
qed

text \<open>
  C3. The claim is that the sequence run by \<^verbatim>\<open>timer_interrupt\<close> (increment the
  tick counter, \<^verbatim>\<open>thread_tick\<close>, the wake-up scan) completes for every state of the
  list. In the code the handler calls \<^verbatim>\<open>timer_wakeup\<close>, whose outer loop is
  \<^verbatim>\<open>while (true)\<close> without an exit: for no frequency, thread and state does
  \<^verbatim>\<open>timer_interrupt\<close> return a state.
\<close>

theorem timer_interrupt_never_returns:
  "timer_interrupt freq cur s \<noteq> Some (Inr s')"
proof (cases "timer_wakeup freq cur (thread_tick (s\<lparr>ticks := ticks s + 1\<rparr>))")
  case None
  then show ?thesis by (simp add: timer_interrupt_def)
next
  case (Some r)
  then have "isl r" by (rule timer_wakeup_result_is_error)
  then obtain e where "r = Inl e" by (cases r) simp_all
  with Some show ?thesis by (simp add: timer_interrupt_def)
qed

text \<open>At 100 ticks per second the handler runs forever from the state after boot.\<close>

lemma timer_interrupt_diverges_at_boot:
  "timer_interrupt 100 0 (timer_init INTR_OFF 0) = None"
proof -
  have "freq_ok 100" and "(100 :: int64_t) \<noteq> 1000"
    by (simp_all add: freq_ok_def)
  then show ?thesis
    by (simp add: timer_interrupt_def timer_wakeup_diverges)
qed

subsection \<open>Ordered insertion\<close>

lemma list_insert_ordered_split:
  "list_insert_ordered q x compare_wake_up_time =
     takeWhile (\<lambda>e. wake_up_time e \<le>s wake_up_time x) q @
     x # dropWhile (\<lambda>e. wake_up_time e \<le>s wake_up_time x) q"
proof (induction q)
  case Nil
  then show ?case by simp
next
  case (Cons e es)
  show ?case
  proof (cases "wake_up_time x <s wake_up_time e")
    case True
    then have "\<not> wake_up_time e \<le>s wake_up_time x" by (simp add: signed.not_le)
    with True show ?thesis by (simp add: compare_wake_up_time_def)
  next
    case False
    then have "wake_up_time e \<le>s wake_up_time x" by (simp add: signed.not_less)
    with False Cons show ?thesis by (simp add: compare_wake_up_time_def)
  qed
qed

lemma queue_sorted_Cons:
  "queue_sorted (e # es) \<longleftrightarrow>
     (\<forall>y \<in> set es. wake_up_time e \<le>s wake_up_time y) \<and> queue_sorted es"
  by (simp add: queue_sorted_def)

lemma queue_sorted_insert:
  "queue_sorted q \<Longrightarrow> queue_sorted (list_insert_ordered q x compare_wake_up_time)"
proof (induction q)
  case Nil
  then show ?case by (simp add: queue_sorted_def)
next
  case (Cons e es)
  show ?case
  proof (cases "wake_up_time x <s wake_up_time e")
    case True
    then have "\<forall>y \<in> set (e # es). wake_up_time x \<le>s wake_up_time y"
      using Cons.prems
      by (auto simp: queue_sorted_Cons intro: signed.less_imp_le signed.order_trans)
    with True Cons.prems show ?thesis
      by (simp add: compare_wake_up_time_def queue_sorted_Cons [of x])
  next
    case False
    then have "wake_up_time e \<le>s wake_up_time x" by (simp add: signed.not_less)
    with False Cons show ?thesis
      by (auto simp: compare_wake_up_time_def queue_sorted_Cons set_list_insert_ordered)
  qed
qed

lemma filter_wake_insert:
  assumes "queue_sorted q"
  shows "filter (\<lambda>st. wake_up_time st = w) (list_insert_ordered q x compare_wake_up_time) =
     filter (\<lambda>st. wake_up_time st = w) q @ (if wake_up_time x = w then [x] else [])"
  using assms
proof (induction q)
  case Nil
  then show ?case by simp
next
  case (Cons e es)
  show ?case
  proof (cases "wake_up_time x <s wake_up_time e")
    case True
    have none: "wake_up_time x = w \<Longrightarrow> filter (\<lambda>st. wake_up_time st = w) (e # es) = []"
    proof -
      assume xw: "wake_up_time x = w"
      have "\<forall>y \<in> set (e # es). wake_up_time x <s wake_up_time y"
        using True Cons.prems
        by (auto simp: queue_sorted_Cons intro: signed.less_le_trans)
      then have "\<forall>y \<in> set (e # es). wake_up_time y \<noteq> w"
        using xw by auto
      then show ?thesis by (simp add: filter_empty_conv)
    qed
    show ?thesis
    proof (cases "wake_up_time x = w")
      case xw: True
      from none [OF xw] have "filter (\<lambda>st. wake_up_time st = w) (e # es) = []" .
      with True xw show ?thesis by (simp add: compare_wake_up_time_def)
    next
      case False
      with True show ?thesis by (simp add: compare_wake_up_time_def)
    qed
  next
    case False
    from Cons.prems have "queue_sorted es" by (simp add: queue_sorted_Cons)
    with Cons.IH False show ?thesis by (simp add: compare_wake_up_time_def)
  qed
qed

lemma queue_sorted_dropWhile: "queue_sorted q \<Longrightarrow> queue_sorted (dropWhile P q)"
  by (simp add: queue_sorted_def dropWhile_eq_drop sorted_wrt_drop)

lemma filter_drop_suffix:
  "\<exists>j. j \<le> length (filter P q) \<and> filter P (drop k q) = drop j (filter P q)"
proof -
  have "filter P q = filter P (take k q) @ filter P (drop k q)"
    by (simp flip: filter_append)
  then have "filter P (drop k q) = drop (length (filter P (take k q))) (filter P q)"
    and "length (filter P (take k q)) \<le> length (filter P q)"
    by simp_all
  then show ?thesis by blast
qed

subsection \<open>Histories keep the list sorted and first-in first-out\<close>

lemma step_Sleep_cases:
  assumes "step (Sleep c n) s = Inr s1"
  shows "(n \<le>s 0 \<and> s1 = s) \<or>
     (0 <s n \<and> sleeping_threads_list s1 =
        list_insert_ordered (sleeping_threads_list s)
          \<lparr>t = c, wake_up_time = ticks s + n\<rparr> compare_wake_up_time)"
proof (cases "0 <s n")
  case True
  show ?thesis
  proof (cases "heap_blocks s = 0")
    case h: True
    with True assms show ?thesis by (simp add: timer_sleep_nomem)
  next
    case False
    with True assms show ?thesis by (auto simp: timer_sleep_pos)
  qed
next
  case False
  then have "n \<le>s 0" by (simp add: signed.not_less)
  with assms show ?thesis by (simp add: timer_sleep_def)
qed

lemma step_sorted:
  assumes "queue_sorted (sleeping_threads_list s)" and "step x s = Inr s1"
  shows "queue_sorted (sleeping_threads_list s1)"
proof (cases x)
  case (Sleep c n)
  with assms(2) step_Sleep_cases [of c n s s1] assms(1) show ?thesis
    by (auto simp: queue_sorted_insert)
next
  case Tick
  with assms show ?thesis by auto
next
  case Wakeup
  with assms show ?thesis by (auto simp: timer_wakeup_pass_eq queue_sorted_dropWhile)
qed

lemma step_fifo:
  assumes "queue_sorted (sleeping_threads_list s)" and "step x s = Inr s1"
  shows "\<exists>j. j \<le> length (filter (\<lambda>st. wake_up_time st = w) (sleeping_threads_list s)) \<and>
     filter (\<lambda>st. wake_up_time st = w) (sleeping_threads_list s1) =
       drop j (filter (\<lambda>st. wake_up_time st = w) (sleeping_threads_list s @ new_request x s))"
proof (cases x)
  case (Sleep c n)
  from assms(2) Sleep step_Sleep_cases [of c n s s1]
  consider "n \<le>s 0" and "s1 = s"
    | "0 <s n" and "sleeping_threads_list s1 =
        list_insert_ordered (sleeping_threads_list s)
          \<lparr>t = c, wake_up_time = ticks s + n\<rparr> compare_wake_up_time"
    by blast
  then show ?thesis
  proof cases
    case 1
    then have "\<not> 0 <s n" by (simp add: signed.not_less)
    with 1 Sleep show ?thesis by (intro exI [of _ 0]) (simp add: new_request_def)
  next
    case 2
    with Sleep assms(1) show ?thesis
      by (intro exI [of _ 0]) (simp add: new_request_def filter_wake_insert)
  qed
next
  case Tick
  with assms show ?thesis by (intro exI [of _ 0]) (auto simp: new_request_def)
next
  case Wakeup
  with assms(2) have q: "sleeping_threads_list s1 =
      drop (length (takeWhile (due (ticks s)) (sleeping_threads_list s))) (sleeping_threads_list s)"
    by (auto simp: timer_wakeup_pass_eq dropWhile_eq_drop)
  from filter_drop_suffix [of "\<lambda>st. wake_up_time st = w" "sleeping_threads_list s"
      "length (takeWhile (due (ticks s)) (sleeping_threads_list s))"] q Wakeup
  show ?thesis by (simp add: new_request_def)
qed

lemma run_sorted:
  "queue_sorted (sleeping_threads_list s) \<Longrightarrow> run ops s = Inr s' \<Longrightarrow>
     queue_sorted (sleeping_threads_list s')"
proof (induction ops arbitrary: s)
  case Nil
  then show ?case by simp
next
  case (Cons x xs)
  from Cons.prems(2) obtain s1 where s1: "step x s = Inr s1" and r: "run xs s1 = Inr s'"
    by (auto split: sum.splits)
  from Cons.prems(1) s1 have "queue_sorted (sleeping_threads_list s1)" by (rule step_sorted)
  then show ?case using r by (rule Cons.IH)
qed

lemma run_fifo:
  "queue_sorted (sleeping_threads_list s) \<Longrightarrow> run ops s = Inr s' \<Longrightarrow>
     \<exists>k. filter (\<lambda>st. wake_up_time st = w) (sleeping_threads_list s') =
       drop k (filter (\<lambda>st. wake_up_time st = w) (sleeping_threads_list s @ requests ops s))"
proof (induction ops arbitrary: s)
  case Nil
  then show ?case by (intro exI [of _ 0]) simp
next
  case (Cons x xs)
  let ?f = "filter (\<lambda>st. wake_up_time st = w)"
  from Cons.prems(2) obtain s1 where s1: "step x s = Inr s1" and r: "run xs s1 = Inr s'"
    by (auto split: sum.splits)
  from Cons.prems(1) s1 have srt: "queue_sorted (sleeping_threads_list s1)" by (rule step_sorted)
  from Cons.IH [OF srt r] obtain k where
    k: "?f (sleeping_threads_list s') = drop k (?f (sleeping_threads_list s1 @ requests xs s1))"
    by blast
  from step_fifo [OF Cons.prems(1) s1, of w] obtain j where
    j: "j \<le> length (?f (sleeping_threads_list s))"
    and q1: "?f (sleeping_threads_list s1) = drop j (?f (sleeping_threads_list s @ new_request x s))"
    by blast
  have "?f (sleeping_threads_list s1 @ requests xs s1) =
      drop j (?f (sleeping_threads_list s @ new_request x s)) @ ?f (requests xs s1)"
    using q1 by simp
  also have "\<dots> = drop j (?f (sleeping_threads_list s @ new_request x s) @ ?f (requests xs s1))"
    using j by simp
  also have "\<dots> = drop j (?f (sleeping_threads_list s @ requests (x # xs) s))"
    using s1 by simp
  finally have "?f (sleeping_threads_list s1 @ requests xs s1) =
      drop j (?f (sleeping_threads_list s @ requests (x # xs) s))" .
  with k have "?f (sleeping_threads_list s') =
      drop (k + j) (?f (sleeping_threads_list s @ requests (x # xs) s))"
    by (simp only: drop_drop)
  then show ?case by blast
qed

text \<open>
  C2. After any history of \<^verbatim>\<open>timer_sleep\<close> calls, ticks and wake-up passes that
  starts from a sorted list (the empty list of \<^verbatim>\<open>timer_init\<close> is one), the list is
  sorted in ascending order of wake-up time: each entry's time is at most that of its
  successor. For every wake-up time \<open>w\<close>, the entries with that time stand in the list
  in the order of their requests: they are what is left, after removals at the front,
  of the entries with time \<open>w\<close> of the starting list followed by those the history's
  calls created, in the order of the calls.
\<close>

theorem sleep_queue_sorted_fifo:
  assumes "queue_sorted (sleeping_threads_list s)" and "run ops s = Inr s'"
  shows "queue_sorted (sleeping_threads_list s') \<and>
    (\<forall>i. Suc i < length (sleeping_threads_list s') \<longrightarrow>
       wake_up_time (sleeping_threads_list s' ! i) \<le>s
       wake_up_time (sleeping_threads_list s' ! Suc i)) \<and>
    (\<forall>w. \<exists>k. filter (\<lambda>st. wake_up_time st = w) (sleeping_threads_list s') =
       drop k (filter (\<lambda>st. wake_up_time st = w) (sleeping_threads_list s @ requests ops s)))"
proof -
  from assms have srt: "queue_sorted (sleeping_threads_list s')" by (rule run_sorted)
  then have adj: "\<forall>i. Suc i < length (sleeping_threads_list s') \<longrightarrow>
       wake_up_time (sleeping_threads_list s' ! i) \<le>s
       wake_up_time (sleeping_threads_list s' ! Suc i)"
    by (simp add: queue_sorted_def sorted_wrt_iff_nth_less)
  from srt adj run_fifo [OF assms] show ?thesis by blast
qed

theorem sleep_queue_sorted_fifo_witness:
  "queue_sorted (sleeping_threads_list (timer_init INTR_ON 8)) \<and>
   (\<exists>s'. run [Sleep 1 5, Sleep 2 5, Sleep 3 2, Tick, Tick, Wakeup, Sleep 4 3]
            (timer_init INTR_ON 8) = Inr s' \<and>
      sleeping_threads_list s' =
        [\<lparr>t = 1, wake_up_time = 5\<rparr>, \<lparr>t = 2, wake_up_time = 5\<rparr>, \<lparr>t = 4, wake_up_time = 5\<rparr>] \<and>
      queue_sorted (sleeping_threads_list s'))"
proof -
  let ?ops = "[Sleep 1 5, Sleep 2 5, Sleep 3 2, Tick, Tick, Wakeup, Sleep 4 3]"
  let ?s' = "\<lparr>ticks = 2, loops_per_tick = 0,
      sleeping_threads_list =
        [\<lparr>t = 1, wake_up_time = 5\<rparr>, \<lparr>t = 2, wake_up_time = 5\<rparr>, \<lparr>t = 4, wake_up_time = 5\<rparr>],
      wakeup_needed = False, level = INTR_ON, heap_blocks = 5,
      calls = [LockAcquire, ListInsert 1, LockRelease, ThreadBlock 1,
        LockAcquire, ListInsert 2, LockRelease, ThreadBlock 2,
        LockAcquire, ListInsert 3, LockRelease, ThreadBlock 3,
        LockAcquire, ListPop 3, ThreadUnblock 3, LockRelease,
        LockAcquire, ListInsert 4, LockRelease, ThreadBlock 4]\<rparr>"
  have s0: "queue_sorted (sleeping_threads_list (timer_init INTR_ON 8))"
    by (simp add: timer_init_def queue_sorted_def)
  have r: "run ?ops (timer_init INTR_ON 8) = Inr ?s'"
    by (simp add: timer_init_def timer_sleep_pos timer_wakeup_pass_eq word_sless_alt
        compare_wake_up_time_def due_def wake_calls_def)
  from sleep_queue_sorted_fifo [OF s0 r] have "queue_sorted (sleeping_threads_list ?s')"
    by blast
  with s0 r show ?thesis by simp
qed

subsection \<open>The log of every execution is in order\<close>

lemma lock_held_append: "lock_held h (xs @ ys) = lock_held (lock_held h xs) ys"
  by (induction xs arbitrary: h) simp_all

lemma never_under_lock_append:
  "never_under_lock crit h (xs @ ys) \<longleftrightarrow>
     never_under_lock crit h xs \<and> never_under_lock crit (lock_held h xs) ys"
  by (induction xs arbitrary: h) simp_all

lemma only_under_lock_append:
  "only_under_lock crit h (xs @ ys) \<longleftrightarrow>
     only_under_lock crit h xs \<and> only_under_lock crit (lock_held h xs) ys"
  by (induction xs arbitrary: h) simp_all

lemma log_in_order_append:
  "log_in_order xs \<Longrightarrow> log_in_order ys \<Longrightarrow> log_in_order (xs @ ys)"
  by (simp add: log_in_order_def never_under_lock_append only_under_lock_append
      lock_held_append)

lemma log_in_order_sleep: "log_in_order [LockAcquire, ListInsert c, LockRelease, ThreadBlock c]"
  by (simp add: log_in_order_def lock_after_def suspends_or_resumes_def mutates_def)

lemma log_in_order_busy_wait: "log_in_order [BusyWait k]"
  by (simp add: log_in_order_def lock_after_def suspends_or_resumes_def mutates_def)

lemma log_in_order_Nil: "log_in_order []"
  by (simp add: log_in_order_def)

lemma adds_in_order_refl: "adds_in_order s s"
  by (simp add: adds_in_order_def log_in_order_Nil)

lemma adds_in_order_trans:
  assumes "adds_in_order s s1" and "adds_in_order s1 s2"
  shows "adds_in_order s s2"
proof -
  from assms(1) obtain a where a: "calls s1 = calls s @ a" "log_in_order a" "filter resumes a = []"
    and f1: "wakeup_needed s1 = wakeup_needed s"
    by (auto simp: adds_in_order_def)
  from assms(2) obtain b where b: "calls s2 = calls s1 @ b" "log_in_order b" "filter resumes b = []"
    and f2: "wakeup_needed s2 = wakeup_needed s1"
    by (auto simp: adds_in_order_def)
  have "calls s2 = calls s @ (a @ b)" using a(1) b(1) by simp
  moreover have "log_in_order (a @ b)" using a(2) b(2) by (rule log_in_order_append)
  moreover have "filter resumes (a @ b) = []" using a(3) b(3) by simp
  ultimately show ?thesis using f1 f2 unfolding adds_in_order_def by metis
qed

lemma timer_sleep_adds:
  assumes "timer_sleep c n s = Inr s'"
  shows "adds_in_order s s'"
proof (cases "0 <s n")
  case True
  show ?thesis
  proof (cases "heap_blocks s = 0")
    case h: True
    with True assms show ?thesis by (simp add: timer_sleep_nomem)
  next
    case False
    with True assms have "wakeup_needed s' = wakeup_needed s"
      and "calls s' = calls s @ [LockAcquire, ListInsert c, LockRelease, ThreadBlock c]"
      by (auto simp: timer_sleep_pos)
    moreover have "filter resumes [LockAcquire, ListInsert c, LockRelease, ThreadBlock c] = []"
      by (simp add: resumes_def)
    ultimately show ?thesis
      unfolding adds_in_order_def using log_in_order_sleep [of c] by metis
  qed
next
  case False
  then have "n \<le>s 0" by (simp add: signed.not_less)
  with assms have "s' = s" by (simp add: timer_sleep_def)
  then show ?thesis by (simp add: adds_in_order_refl)
qed

lemma real_time_delay_adds:
  assumes "real_time_delay freq num denom s = Inr s'"
  shows "adds_in_order s s'"
proof -
  from assms obtain k where "s' = s\<lparr>calls := calls s @ [BusyWait k]\<rparr>"
    by (auto simp: real_time_delay_def Let_def split: if_splits)
  then have "wakeup_needed s' = wakeup_needed s" and "calls s' = calls s @ [BusyWait k]"
    by simp_all
  moreover have "filter resumes [BusyWait k] = []" by (simp add: resumes_def)
  ultimately show ?thesis
    unfolding adds_in_order_def using log_in_order_busy_wait [of k] by metis
qed

lemma real_time_sleep_adds:
  assumes "real_time_sleep freq c num denom s = Inr s'"
  shows "adds_in_order s s'"
  using assms
  by (auto simp: real_time_sleep_def Let_def split: if_splits
      intro: timer_sleep_adds real_time_delay_adds)

lemma timer_calibrate_adds:
  assumes "timer_calibrate f s = Some (Inr s')"
  shows "adds_in_order s s'"
proof -
  from assms obtain lpt where "s' = s\<lparr>loops_per_tick := lpt\<rparr>"
    by (auto simp: timer_calibrate_def split: if_splits sum.splits option.splits)
  then show ?thesis by (simp add: adds_in_order_def log_in_order_Nil)
qed

lemma timer_wakeup_iter_adds:
  assumes "\<not> wakeup_needed s" and "timer_wakeup_iter freq c s = Inr s'"
  shows "adds_in_order s s'"
proof -
  from assms obtain s3 where m: "timer_msleep freq c 1 (s\<lparr>level := INTR_ON\<rparr>) = Inr s3"
    and s': "s' = intr_set_level (level s) s3"
    by (auto simp: timer_wakeup_iter_def intr_enable_def split: sum.splits)
  from m have "adds_in_order (s\<lparr>level := INTR_ON\<rparr>) s3"
    unfolding timer_msleep_def by (rule real_time_sleep_adds)
  then show ?thesis using s' by (simp add: adds_in_order_def intr_set_level_def)
qed

lemma exec_adds:
  assumes "\<not> wakeup_needed s" and "exec freq a s = Some (Inr s')"
  shows "adds_in_order s s'"
proof (cases a)
  case (Call_timer_sleep c n)
  with assms(2) show ?thesis by (simp add: timer_sleep_adds)
next
  case (Call_real_time_sleep c num denom)
  with assms(2) show ?thesis by (simp add: real_time_sleep_adds)
next
  case (Call_real_time_delay num denom)
  with assms(2) show ?thesis by (simp add: real_time_delay_adds)
next
  case (Call_timer_calibrate f)
  with assms(2) show ?thesis by (simp add: timer_calibrate_adds)
next
  case (Set_intr_level l)
  with assms(2) show ?thesis
    by (auto simp: adds_in_order_def intr_set_level_def log_in_order_Nil)
next
  case Interrupt_entry
  with assms(2) show ?thesis
    by (auto simp: adds_in_order_def thread_tick_def log_in_order_Nil)
next
  case (Wakeup_turn c)
  with assms show ?thesis by (simp add: timer_wakeup_iter_adds)
next
  case (Interrupt c)
  with assms(2) have r: "timer_interrupt freq c s = Some (Inr s')" by simp
  show ?thesis
  proof (cases "timer_wakeup freq c (thread_tick (s\<lparr>ticks := ticks s + 1\<rparr>))")
    case None
    with r show ?thesis by (simp add: timer_interrupt_def)
  next
    case (Some x)
    then have "isl x" by (rule timer_wakeup_result_is_error)
    then obtain e where "x = Inl e" by (cases x) simp_all
    with Some r show ?thesis by (simp add: timer_interrupt_def)
  qed
qed

lemma execs_adds:
  "\<not> wakeup_needed s \<Longrightarrow> execs freq acts s = Some (Inr s') \<Longrightarrow> adds_in_order s s'"
proof (induction acts arbitrary: s)
  case Nil
  then show ?case by (simp add: adds_in_order_refl)
next
  case (Cons a acts)
  from Cons.prems(2) obtain s1 where a: "exec freq a s = Some (Inr s1)"
    and r: "execs freq acts s1 = Some (Inr s')"
    by (auto split: option.splits sum.splits)
  from Cons.prems(1) a have 1: "adds_in_order s s1" by (rule exec_adds)
  then have "\<not> wakeup_needed s1" using Cons.prems(1) by (simp add: adds_in_order_def)
  then have "adds_in_order s1 s'" using r by (rule Cons.IH)
  with 1 show ?case by (rule adds_in_order_trans)
qed

lemma execs_from_boot:
  assumes "execs freq acts (timer_init l h) = Some (Inr s')"
  shows "log_in_order (calls s')" and "filter resumes (calls s') = []"
    and "\<not> wakeup_needed s'"
proof -
  have "\<not> wakeup_needed (timer_init l h)" by (simp add: timer_init_def)
  from execs_adds [OF this assms]
  show "log_in_order (calls s')" and "filter resumes (calls s') = []"
    and "\<not> wakeup_needed s'"
    by (auto simp: adds_in_order_def timer_init_def)
qed

lemma wakeup_turn_idle:
  assumes "freq_ok freq" and "freq \<noteq> 1000" and "\<not> wakeup_needed s"
  shows "timer_wakeup_iter freq c s =
    Inr (s\<lparr>calls := calls s @
      [BusyWait (busy_wait (sdiv64 (sdiv64 (ucast (loops_per_tick s)) 1000 * freq) 1))]\<rparr>)"
proof -
  have "level (s\<lparr>level := INTR_ON\<rparr>) = INTR_ON" by simp
  from timer_msleep_1_busy_waits [OF assms(1,2) this, of c] assms(3)
  show ?thesis
    by (simp add: timer_wakeup_iter_def intr_enable_def intr_set_level_def)
qed

text \<open>No execution unblocks a thread: after any actions the log holds no unblock call.\<close>

lemma no_thread_is_ever_unblocked:
  assumes "execs freq acts (timer_init l h) = Some (Inr s')"
  shows "ThreadUnblock c \<notin> set (calls s')"
proof
  assume "ThreadUnblock c \<in> set (calls s')"
  moreover have "resumes (ThreadUnblock c)" by (simp add: resumes_def)
  ultimately have "filter resumes (calls s') \<noteq> []" by (auto simp: filter_empty_conv)
  with execs_from_boot(2) [OF assms] show False by simp
qed



text \<open>
  C1. The claim is that a thread that calls \<^verbatim>\<open>timer_sleep (n)\<close> is resumed on the
  first tick at or after its wake tick, and not before. The code computes the wake tick
  and enqueues the thread, and nothing resumes it: thread 1 sleeps for one tick from
  boot, the interrupt of tick 1 arrives, and after any turns of the loop of
  \<^verbatim>\<open>timer_wakeup\<close> the thread is still in the list with wake tick 1, no unblock call
  has been made, and the handler has not returned.
\<close>

theorem sleeper_is_never_resumed:
  "execs 100 [Call_timer_sleep 1 1, Set_intr_level INTR_OFF, Interrupt_entry,
      Wakeup_turn 0, Wakeup_turn 0, Wakeup_turn 0] (timer_init INTR_ON 8) =
     Some (Inr \<lparr>ticks = 1, loops_per_tick = 0,
          sleeping_threads_list = [\<lparr>t = 1, wake_up_time = 1\<rparr>], wakeup_needed = False,
          level = INTR_OFF, heap_blocks = 7,
          calls = [LockAcquire, ListInsert 1, LockRelease, ThreadBlock 1,
                   BusyWait 0, BusyWait 0, BusyWait 0]\<rparr>) \<and>
   execs 100 [Call_timer_sleep 1 1, Set_intr_level INTR_OFF, Interrupt 0]
     (timer_init INTR_ON 8) = None"
proof -
  have f: "freq_ok 100" "(100 :: int64_t) \<noteq> 1000" by (simp_all add: freq_ok_def)
  have z: "sdiv64 0 1000 = 0" "sdiv64 0 1 = 0" by (simp_all add: sdiv64_def)
  have u: "timer_sleep 1 1 (timer_init INTR_ON 8) =
     Inr \<lparr>ticks = 0, loops_per_tick = 0,
          sleeping_threads_list = [\<lparr>t = 1, wake_up_time = 1\<rparr>], wakeup_needed = False,
          level = INTR_ON, heap_blocks = 7,
          calls = [LockAcquire, ListInsert 1, LockRelease, ThreadBlock 1]\<rparr>"
    by (simp add: timer_init_def timer_sleep_pos word_sless_alt)
  have a: "execs 100 [Call_timer_sleep 1 1, Set_intr_level INTR_OFF, Interrupt_entry,
      Wakeup_turn 0, Wakeup_turn 0, Wakeup_turn 0] (timer_init INTR_ON 8) =
     Some (Inr \<lparr>ticks = 1, loops_per_tick = 0,
          sleeping_threads_list = [\<lparr>t = 1, wake_up_time = 1\<rparr>], wakeup_needed = False,
          level = INTR_OFF, heap_blocks = 7,
          calls = [LockAcquire, ListInsert 1, LockRelease, ThreadBlock 1,
                   BusyWait 0, BusyWait 0, BusyWait 0]\<rparr>)"
    using u
    by (simp add: intr_set_level_def thread_tick_def wakeup_turn_idle [OF f] z busy_wait_eq)
  have b: "execs 100 [Call_timer_sleep 1 1, Set_intr_level INTR_OFF, Interrupt 0]
     (timer_init INTR_ON 8) = None"
    using u by (simp add: intr_set_level_def timer_interrupt_def timer_wakeup_diverges [OF f])
  from a b show ?thesis by blast
qed

subsection \<open>Duration wrappers\<close>

lemma sint_mult_in_range:
  assumes "- (2 ^ 63) \<le> sint (a :: int64_t) * sint b" and "sint a * sint (b :: int64_t) < 2 ^ 63"
  shows "sint (a * b) = sint a * sint b"
proof -
  have "sint (a * b) = signed_take_bit 63 (sint a * sint b)"
    by (simp add: sint_word_ariths)
  also have "\<dots> = sint a * sint b"
    using assms by (intro signed_take_bit_int_eq_self) simp_all
  finally show ?thesis .
qed

text \<open>Truncating and rounding-down division by a positive number, on the integers.\<close>

lemma sdiv_pos_divisor:
  fixes p d :: int
  assumes "0 < d"
  shows "\<bar>p sdiv d\<bar> \<le> \<bar>p\<bar>"
    and "0 < p sdiv d \<longleftrightarrow> 1 \<le> p div d"
    and "1 \<le> p div d \<Longrightarrow> p sdiv d = p div d"
proof -
  have le: "\<bar>p\<bar> div d \<le> \<bar>p\<bar>" using assms zdiv_mono2 [of "\<bar>p\<bar>" 1 d] by simp
  have nn: "0 \<le> \<bar>p\<bar> div d" using assms by (simp add: pos_imp_zdiv_nonneg_iff)
  have sd: "p sdiv d = sgn p * (\<bar>p\<bar> div d)"
    using assms by (simp add: signed_divide_int_def)
  show "\<bar>p sdiv d\<bar> \<le> \<bar>p\<bar>"
  proof (cases "p = 0")
    case True
    then show ?thesis by (simp add: sd)
  next
    case False
    then have "\<bar>p sdiv d\<bar> = \<bar>p\<bar> div d"
      using nn by (simp add: sd abs_mult abs_sgn_eq)
    with le show ?thesis by simp
  qed
  show "0 < p sdiv d \<longleftrightarrow> 1 \<le> p div d"
  proof (cases "0 \<le> p")
    case True
    then show ?thesis using assms by (auto simp: signed_divide_int_def sgn_if)
  next
    case False
    then have "p div d < 0" using assms by (simp add: pos_imp_zdiv_neg_iff)
    moreover have "p sdiv d \<le> 0" using False assms nn by (simp add: signed_divide_int_def sgn_if)
    ultimately show ?thesis by simp
  qed
  show "p sdiv d = p div d" if "1 \<le> p div d"
  proof -
    have "0 \<le> p"
    proof (rule ccontr)
      assume "\<not> 0 \<le> p"
      then have "p div d < 0" using assms by (simp add: pos_imp_zdiv_neg_iff)
      with that show False by simp
    qed
    then show ?thesis using assms by (auto simp: signed_divide_int_def sgn_if)
  qed
qed

lemma sint_sdiv64:
  assumes "0 < sint b"
  shows "sint (sdiv64 a b) = sint a sdiv sint b"
proof -
  have "\<bar>sint a sdiv sint b\<bar> \<le> \<bar>sint a\<bar>" using assms by (rule sdiv_pos_divisor(1))
  moreover have "- (2 ^ 63) \<le> sint a" using sint_ge [of a] by simp
  moreover have "sint a < 2 ^ 63" using sint_lt [of a] by simp
  moreover have "sint a sdiv sint b \<le> 0 \<or> 0 \<le> sint a"
    using assms by (auto simp: signed_divide_int_def sgn_if pos_imp_zdiv_nonneg_iff)
  ultimately have "- (2 ^ 63) \<le> sint a sdiv sint b" and "sint a sdiv sint b < 2 ^ 63"
    by linarith+
  then have "signed_take_bit 63 (sint a sdiv sint b) = sint a sdiv sint b"
    by (intro signed_take_bit_int_eq_self) simp_all
  then show ?thesis by (simp add: sdiv64_def sint_sbintrunc')
qed

lemma wrapper_denom_facts:
  assumes "wrapper_denom denom"
  shows "0 < sint denom" and "sint (scast denom :: int64_t) = sint denom"
    and "smod32 denom 1000 = 0"
    and "(scast (sdiv32 denom 1000) :: int64_t) \<noteq> 0"
    and "(scast (sdiv32 denom 1000) :: int64_t) \<noteq> - 1"
  using assms
  by (auto simp: wrapper_denom_def smod32_def sdiv32_def signed_modulo_int_def
      signed_divide_int_def)

lemma real_time_delay_busy_waits:
  assumes "wrapper_denom denom"
  shows "real_time_delay freq num denom s =
    Inr (s\<lparr>calls := calls s @
      [BusyWait (busy_wait (sdiv64 (sdiv64 (ucast (loops_per_tick s) * num) 1000 * freq)
         (scast (sdiv32 denom 1000))))]\<rparr>)"
  using wrapper_denom_facts [OF assms]
  by (simp add: real_time_delay_def div_traps_def)

text \<open>
  With the product in range, \<^verbatim>\<open>real_time_sleep\<close> goes the way the rounded-down
  count says, for the denominators of the wrappers and with interrupts on.
\<close>

lemma real_time_sleep_routes:
  assumes "- (2 ^ 63) \<le> sint num * sint freq" and "sint num * sint freq < 2 ^ 63"
    and "wrapper_denom denom" and "level s = INTR_ON"
  shows "real_time_sleep freq cur num denom s = sleep_rounded_down freq cur num denom s"
proof -
  note d = wrapper_denom_facts [OF assms(3)]
  let ?tk = "sdiv64 (num * freq) (scast denom)"
  have p: "sint (num * freq) = sint num * sint freq"
    using assms(1,2) by (rule sint_mult_in_range)
  have dpos: "0 < sint (scast denom :: int64_t)" using d(1,2) by simp
  then have "(scast denom :: int64_t) \<noteq> 0" and "(scast denom :: int64_t) \<noteq> - 1"
    by auto
  then have nt: "\<not> div_traps (num * freq) (scast denom)" by (simp add: div_traps_def)
  have tk: "sint ?tk = (sint num * sint freq) sdiv sint denom"
    using sint_sdiv64 [OF dpos, of "num * freq"] p d(2) by simp
  have pos: "0 <s ?tk \<longleftrightarrow> 1 \<le> ticks_rounded_down freq num denom"
    using tk sdiv_pos_divisor(2) [OF d(1), of "sint num * sint freq"]
    by (simp add: word_sless_alt ticks_rounded_down_def)
  have eq: "?tk = word_of_int (ticks_rounded_down freq num denom)"
    if "1 \<le> ticks_rounded_down freq num denom"
  proof -
    from that have "(sint num * sint freq) sdiv sint denom = ticks_rounded_down freq num denom"
      using sdiv_pos_divisor(3) [OF d(1), of "sint num * sint freq"]
      by (simp add: ticks_rounded_down_def)
    then show ?thesis using p d(2) by (simp add: sdiv64_def)
  qed
  show ?thesis
  proof (cases "1 \<le> ticks_rounded_down freq num denom")
    case True
    with nt assms(4) pos eq [OF True] show ?thesis
      by (simp add: real_time_sleep_def sleep_rounded_down_def)
  next
    case False
    with nt assms(4) pos real_time_delay_busy_waits [OF assms(3), of freq num s] show ?thesis
      by (simp add: real_time_sleep_def sleep_rounded_down_def)
  qed
qed

text \<open>
  C7. The claim is that for every duration the wrappers compute
  \<open>num \<cdot> TIMER_FREQ / denom\<close> rounded down and sleep when that is at least 1. The
  code multiplies in \<^verbatim>\<open>int64_t\<close>: for \<open>2\<^sup>6\<^sup>2\<close> milliseconds at 100 ticks per second
  the product wraps to 0 and the code busy-waits although the rounded-down count is
  far above 1. And the code asserts that interrupts are on before it looks at the
  count: for 250 milliseconds with interrupts off the count is 25 and the call fails
  the assertion instead of sleeping.
\<close>

theorem sleep_wrappers_counterexample:
  "1 \<le> ticks_rounded_down 100 (2 ^ 62) 1000 \<and>
   timer_msleep 100 1 (2 ^ 62) ((timer_init INTR_ON 8)\<lparr>loops_per_tick := 1024\<rparr>) =
     Inr ((timer_init INTR_ON 8)\<lparr>loops_per_tick := 1024, calls := [BusyWait 0]\<rparr>) \<and>
   1 \<le> ticks_rounded_down 100 250 1000 \<and>
   timer_msleep 100 1 250 ((timer_init INTR_OFF 8)\<lparr>loops_per_tick := 1024\<rparr>) =
     Inl AssertionFailure"
proof -
  have a: "1 \<le> ticks_rounded_down 100 (2 ^ 62) 1000"
    by (simp add: ticks_rounded_down_def)
  have m: "smod32 1000 1000 = 0"
    by (simp add: smod32_def signed_modulo_int_def)
  have d: "sdiv32 1000 1000 = 1"
    by (simp add: sdiv32_def signed_divide_int_def)
  have z: "sdiv64 461168601842738790400 1000 = 0" "sdiv64 0 1 = 0"
    "sdiv64 4722366482869645213696 1000 = 0"
    by (simp_all add: sdiv64_def signed_divide_int_def)
  have b: "timer_msleep 100 1 (2 ^ 62) ((timer_init INTR_ON 8)\<lparr>loops_per_tick := 1024\<rparr>) =
     Inr ((timer_init INTR_ON 8)\<lparr>loops_per_tick := 1024, calls := [BusyWait 0]\<rparr>)"
    by (simp add: timer_msleep_def real_time_sleep_def real_time_delay_def div_traps_def
        timer_init_def m d z busy_wait_eq)
  have c: "1 \<le> ticks_rounded_down 100 250 1000"
    by (simp add: ticks_rounded_down_def)
  have e: "timer_msleep 100 1 250 ((timer_init INTR_OFF 8)\<lparr>loops_per_tick := 1024\<rparr>) =
     Inl AssertionFailure"
    by (simp add: timer_msleep_def real_time_sleep_def div_traps_def timer_init_def)
  from a b c e show ?thesis by blast
qed

text \<open>
  C7, amended. For every duration whose product with \<^verbatim>\<open>TIMER_FREQ\<close> fits
  \<^verbatim>\<open>int64_t\<close>, the three wrappers, called with interrupts on, go by
  \<open>num \<cdot> TIMER_FREQ / denom\<close> rounded down: when that count is at least 1 they call
  \<^verbatim>\<open>timer_sleep\<close> with it, otherwise they busy-wait and call neither the lock nor
  the scheduler.
\<close>

theorem sleep_wrappers_round_down:
  assumes "- (2 ^ 63) \<le> sint num * sint freq" and "sint num * sint freq < 2 ^ 63"
    and "level s = INTR_ON"
  shows "timer_msleep freq cur num s = sleep_rounded_down freq cur num 1000 s \<and>
    timer_usleep freq cur num s = sleep_rounded_down freq cur num 1000000 s \<and>
    timer_nsleep freq cur num s = sleep_rounded_down freq cur num 1000000000 s"
proof -
  have w: "wrapper_denom 1000" "wrapper_denom 1000000" "wrapper_denom 1000000000"
    by (simp_all add: wrapper_denom_def)
  have "real_time_sleep freq cur num 1000 s = sleep_rounded_down freq cur num 1000 s"
    using assms(1,2) w(1) assms(3) by (rule real_time_sleep_routes)
  moreover have "real_time_sleep freq cur num 1000000 s =
      sleep_rounded_down freq cur num 1000000 s"
    using assms(1,2) w(2) assms(3) by (rule real_time_sleep_routes)
  moreover have "real_time_sleep freq cur num 1000000000 s =
      sleep_rounded_down freq cur num 1000000000 s"
    using assms(1,2) w(3) assms(3) by (rule real_time_sleep_routes)
  ultimately show ?thesis
    by (simp add: timer_msleep_def timer_usleep_def timer_nsleep_def)
qed

theorem sleep_wrappers_round_down_witness:
  "ticks_rounded_down 100 250 1000 = 25 \<and>
   timer_msleep 100 1 250 ((timer_init INTR_ON 8)\<lparr>loops_per_tick := 1024\<rparr>) =
     timer_sleep 1 25 ((timer_init INTR_ON 8)\<lparr>loops_per_tick := 1024\<rparr>) \<and>
   ticks_rounded_down 100 5 1000 = 0 \<and>
   timer_msleep 100 1 5 ((timer_init INTR_ON 8)\<lparr>loops_per_tick := 1024\<rparr>) =
     Inr ((timer_init INTR_ON 8)\<lparr>loops_per_tick := 1024, calls := [BusyWait 500]\<rparr>) \<and>
   ticks_rounded_down 100 (- 5) 1000 = - 1 \<and>
   timer_msleep 100 1 (- 5) ((timer_init INTR_ON 8)\<lparr>loops_per_tick := 1024\<rparr>) =
     Inr ((timer_init INTR_ON 8)\<lparr>loops_per_tick := 1024, calls := [BusyWait 0]\<rparr>)"
proof -
  let ?s = "(timer_init INTR_ON 8)\<lparr>loops_per_tick := 1024\<rparr>"
  have l: "level ?s = INTR_ON" by (simp add: timer_init_def)
  have r1: "- (2 ^ 63) \<le> sint (250 :: int64_t) * sint (100 :: int64_t)"
      "sint (250 :: int64_t) * sint (100 :: int64_t) < 2 ^ 63"
    and r2: "- (2 ^ 63) \<le> sint (5 :: int64_t) * sint (100 :: int64_t)"
      "sint (5 :: int64_t) * sint (100 :: int64_t) < 2 ^ 63"
    and r3: "- (2 ^ 63) \<le> sint (- 5 :: int64_t) * sint (100 :: int64_t)"
      "sint (- 5 :: int64_t) * sint (100 :: int64_t) < 2 ^ 63"
    by simp_all
  have t1: "ticks_rounded_down 100 250 1000 = 25" and t2: "ticks_rounded_down 100 5 1000 = 0"
    and t3: "ticks_rounded_down 100 (- 5) 1000 = - 1"
    by (simp_all add: ticks_rounded_down_def)
  have k2: "sdiv64 (sdiv64 (ucast (1024 :: unsigned) * 5) 1000 * 100)
      (scast (sdiv32 1000 1000)) = 500"
    and k3: "sdiv64 (sdiv64 (ucast (1024 :: unsigned) * (- 5)) 1000 * 100)
      (scast (sdiv32 1000 1000)) = - 500"
    by (simp_all add: sdiv64_def sdiv32_def signed_divide_int_def)
  from sleep_wrappers_round_down [OF r1 l, of 1] t1
  have a: "timer_msleep 100 1 250 ?s = timer_sleep 1 25 ?s"
    by (simp add: sleep_rounded_down_def)
  from sleep_wrappers_round_down [OF r2 l, of 1] t2 k2
  have b: "timer_msleep 100 1 5 ?s = Inr (?s\<lparr>calls := [BusyWait 500]\<rparr>)"
    by (simp add: sleep_rounded_down_def timer_init_def busy_wait_eq)
  from sleep_wrappers_round_down [OF r3 l, of 1] t3 k3
  have c: "timer_msleep 100 1 (- 5) ?s = Inr (?s\<lparr>calls := [BusyWait 0]\<rparr>)"
    by (simp add: sleep_rounded_down_def timer_init_def busy_wait_eq)
  from t1 t2 t3 a b c show ?thesis by simp
qed

subsection \<open>The interrupt level on the blocking paths\<close>

lemma real_time_sleep_asserts_intr_on:
  assumes "level s \<noteq> INTR_ON"
  shows "timer_msleep freq cur ms s = Inl AssertionFailure"
    and "timer_usleep freq cur us s = Inl AssertionFailure"
    and "timer_nsleep freq cur ns s = Inl AssertionFailure"
  using assms
  by (simp_all add: timer_msleep_def timer_usleep_def timer_nsleep_def real_time_sleep_def
      div_traps_def)

lemma timer_sleep_never_asserts: "timer_sleep cur n s \<noteq> Inl AssertionFailure"
  by (simp add: timer_sleep_def timer_ticks_eq Let_def split: option.split)

text \<open>
  C6. The claim is that every blocking sleep, \<^verbatim>\<open>timer_sleep\<close> included, fails an
  assertion when interrupts are off. \<^verbatim>\<open>real_time_sleep\<close> asserts it for the three
  wrappers; \<^verbatim>\<open>timer_sleep\<close>, whose comment says "Interrupts must be turned on",
  checks nothing: called with interrupts off it enqueues the caller and blocks it.
\<close>

theorem timer_sleep_runs_with_interrupts_off:
  "timer_sleep 1 5 (timer_init INTR_OFF 8) =
     Inr \<lparr>ticks = 0, loops_per_tick = 0,
          sleeping_threads_list = [\<lparr>t = 1, wake_up_time = 5\<rparr>], wakeup_needed = False,
          level = INTR_OFF, heap_blocks = 7,
          calls = [LockAcquire, ListInsert 1, LockRelease, ThreadBlock 1]\<rparr>"
  by (simp add: timer_init_def timer_sleep_pos word_sless_alt)

subsection \<open>Calibration\<close>

lemma calibrate_refine_from:
  "j \<le> 10 \<Longrightarrow>
     \<exists>l. calibrate_refine f hb (drop_bit j hb) lpt = Some l"
proof (induction "10 - j" arbitrary: j lpt)
  case 0
  then have "j = 10" by simp
  then show ?case by (subst calibrate_refine.simps) simp
next
  case (Suc d)
  show ?case
  proof (cases "drop_bit j hb = drop_bit 10 hb")
    case True
    then show ?thesis by (subst calibrate_refine.simps) simp
  next
    case False
    from Suc(2) have d: "d = 10 - Suc j" and le: "Suc j \<le> 10" using Suc.prems by simp_all
    have sh: "drop_bit 1 (drop_bit j hb) = drop_bit (Suc j) hb"
      by (simp add: drop_bit_drop_bit)
    from Suc(1) [OF d le] obtain l where
      "calibrate_refine f hb (drop_bit (Suc j) hb) (refine_step f lpt (drop_bit j hb)) = Some l"
      by blast
    with False sh show ?thesis
      by (subst calibrate_refine.simps) (simp del: drop_bit_Suc)
  qed
qed

lemma refine_step_cases:
  "refine_step f lpt tb = lpt \<or> refine_step f lpt tb = lpt OR tb"
  by (simp add: refine_step_def)

lemma refine_step_ge: "lpt \<le> refine_step f lpt tb"
  by (simp add: refine_step_def le_word_or2)

lemma refine_step_keeps_bits: "refine_step f lpt tb AND lpt = lpt"
  by (simp add: refine_step_def bit_eq_iff bit_and_iff bit_or_iff) blast

lemma calibrate_refine_mono:
  assumes "calibrate_refine f hb tb lpt = Some l"
  shows "lpt \<le> l \<and> l AND lpt = lpt"
proof (rule calibrate_refine.raw_induct
    [where P = "\<lambda>f hb tb lpt l. lpt \<le> l \<and> l AND lpt = lpt", OF _ assms])
  fix cr :: "(unsigned \<Rightarrow> bool) \<Rightarrow> unsigned \<Rightarrow> unsigned \<Rightarrow> unsigned \<Rightarrow> unsigned option"
    and f :: "unsigned \<Rightarrow> bool" and hb tb lpt l :: unsigned
  assume IH: "\<And>f hb tb lpt l. cr f hb tb lpt = Some l \<Longrightarrow> lpt \<le> l \<and> l AND lpt = lpt"
    and body: "(if tb = drop_bit 10 hb then Some lpt
       else cr f hb (drop_bit 1 tb) (refine_step f lpt tb)) = Some l"
  show "lpt \<le> l \<and> l AND lpt = lpt"
  proof (cases "tb = drop_bit 10 hb")
    case True
    with body show ?thesis by simp
  next
    case False
    let ?n = "refine_step f lpt tb"
    from False body have "cr f hb (drop_bit 1 tb) ?n = Some l" by simp
    from IH [OF this] have a: "?n \<le> l" and b: "l AND ?n = ?n" by simp_all
    note c = refine_step_ge [of lpt f tb] and d = refine_step_keeps_bits [of f lpt tb]
    have "l AND lpt = l AND (?n AND lpt)" using d by simp
    also have "\<dots> = (l AND ?n) AND lpt" by (simp add: and.assoc)
    also have "\<dots> = lpt" using b d by simp
    finally have "l AND lpt = lpt" .
    with a c show ?thesis by simp
  qed
qed

lemma exp_word_inj:
  assumes "a < 32" and "(2 :: unsigned) ^ a = 2 ^ b"
  shows "a = b"
proof -
  have "bit ((2 :: unsigned) ^ a) a" using assms(1) by (simp add: bit_exp_iff)
  with assms(2) have "bit ((2 :: unsigned) ^ b) a" by simp
  then show ?thesis by (simp add: bit_exp_iff)
qed

lemma drop_bit_exp_word:
  assumes "m \<le> n" and "n < 32"
  shows "drop_bit m ((2 :: unsigned) ^ n) = 2 ^ (n - m)"
  using assms by (simp add: drop_bit_exp_eq)

text \<open>
  From a leading bit \<open>2\<^sup>k\<close> the loop tests the bits \<open>2\<^sup>k\<^sup>-\<^sup>j, \<dots>, 2\<^sup>k\<^sup>-\<^sup>9\<close> in turn, when
  entered at \<open>2\<^sup>k\<^sup>-\<^sup>j\<close>.
\<close>

lemma calibrate_refine_unroll:
  assumes "10 \<le> k" and "k < 32" and "1 \<le> j" and "j \<le> 10"
  shows "calibrate_refine f (2 ^ k) (2 ^ (k - j)) lpt =
    Some (foldl (refine_step f) lpt (map (\<lambda>i. 2 ^ (k - i)) [j..<10]))"
  using assms(3,4)
proof (induction "10 - j" arbitrary: j lpt)
  case 0
  then have j: "j = 10" by simp
  have "drop_bit 10 ((2 :: unsigned) ^ k) = 2 ^ (k - 10)"
    using assms(1,2) by (rule drop_bit_exp_word)
  then show ?case using j by (subst calibrate_refine.simps) simp
next
  case (Suc d)
  from Suc(2) Suc.prems have d: "d = 10 - Suc j" and le: "Suc j \<le> 10" and lt: "j < 10"
    by simp_all
  have t: "drop_bit 10 ((2 :: unsigned) ^ k) = 2 ^ (k - 10)"
    using assms(1,2) by (rule drop_bit_exp_word)
  have ne: "(2 :: unsigned) ^ (k - j) \<noteq> 2 ^ (k - 10)"
  proof
    assume "(2 :: unsigned) ^ (k - j) = 2 ^ (k - 10)"
    with assms(2) have "k - j = k - 10" by (intro exp_word_inj) simp_all
    with lt assms(1) show False by simp
  qed
  have sh: "drop_bit 1 ((2 :: unsigned) ^ (k - j)) = 2 ^ (k - Suc j)"
    using drop_bit_exp_word [of 1 "k - j"] assms(1,2) lt by simp
  have up: "[j..<10] = j # [Suc j..<10]" using lt by (simp add: upt_conv_Cons)
  have "calibrate_refine f (2 ^ k) (2 ^ (k - j)) lpt =
      calibrate_refine f (2 ^ k) (2 ^ (k - Suc j)) (refine_step f lpt (2 ^ (k - j)))"
    using ne t sh by (subst calibrate_refine.simps) (simp del: drop_bit_Suc)
  also have "\<dots> = Some (foldl (refine_step f) (refine_step f lpt (2 ^ (k - j)))
      (map (\<lambda>i. 2 ^ (k - i)) [Suc j..<10]))"
    using Suc(1) [OF d _ le] by simp
  also have "\<dots> = Some (foldl (refine_step f) lpt (map (\<lambda>i. 2 ^ (k - i)) [j..<10]))"
    by (simp add: up)
  finally show ?case .
qed

lemma calibrate_search_power:
  assumes "calibrate_search f (2 ^ k) = Inr hb" and "k < 32"
  shows "\<exists>k'. k \<le> k' \<and> k' < 32 \<and> hb = 2 ^ k'"
  using assms
proof (induction f "2 ^ k :: unsigned" arbitrary: k rule: calibrate_search.induct)
  case (1 f k)
  show ?case
  proof (cases "f (push_bit 1 (2 ^ k))")
    case True
    with "1.prems" show ?thesis
      by (subst (asm) calibrate_search.simps) auto
  next
    case False
    have sh: "push_bit 1 ((2 :: unsigned) ^ k) = 2 ^ Suc k" by simp
    show ?thesis
    proof (cases "(2 :: unsigned) ^ Suc k = 0")
      case True
      with False sh "1.prems"(1) show ?thesis
        by (subst (asm) calibrate_search.simps) (simp del: push_bit_Suc)
    next
      case nz: False
      then have lt: "Suc k < 32" unfolding exp_eq_zero_iff by simp
      from False nz sh "1.prems"(1) have r: "calibrate_search f (2 ^ Suc k) = Inr hb"
        by (subst (asm) calibrate_search.simps) (simp del: push_bit_Suc)
      have "\<exists>k'. Suc k \<le> k' \<and> k' < 32 \<and> hb = 2 ^ k'"
        using nz sh by (intro "1.hyps" [of "Suc k", OF False _ _ r lt]) simp_all
      then show ?thesis by (auto intro: Suc_leD)
    qed
  qed
qed

text \<open>Whenever the calibration succeeds, nine bits below the leading one were tested.\<close>

lemma timer_calibrate_tests_nine_bits:
  assumes "timer_calibrate f s = Some (Inr s')"
  shows "\<exists>k. 10 \<le> k \<and> k < 32 \<and>
    s' = s\<lparr>loops_per_tick := foldl (refine_step f) (2 ^ k)
      [2 ^ (k - 1), 2 ^ (k - 2), 2 ^ (k - 3), 2 ^ (k - 4), 2 ^ (k - 5),
       2 ^ (k - 6), 2 ^ (k - 7), 2 ^ (k - 8), 2 ^ (k - 9)]\<rparr>"
proof -
  from assms have on: "level s = INTR_ON"
    by (auto simp: timer_calibrate_def split: if_splits)
  from assms on obtain hb where hb: "calibrate_search f (2 ^ 10) = Inr hb"
    by (auto simp: timer_calibrate_def split: sum.splits)
  then obtain k where k: "10 \<le> k" "k < 32" "hb = 2 ^ k"
    using calibrate_search_power [of f 10 hb] by auto
  have sh: "drop_bit 1 ((2 :: unsigned) ^ k) = 2 ^ (k - 1)"
    using drop_bit_exp_word [of 1 k] k by simp
  have l: "[1..<10] = [1, 2, 3, 4, 5, 6, 7, 8, 9 :: nat]"
    by (simp add: upt_rec)
  have "calibrate_refine f (2 ^ k) (2 ^ (k - 1)) (2 ^ k) =
      Some (foldl (refine_step f) (2 ^ k) (map (\<lambda>i. 2 ^ (k - i)) [1..<10]))"
    using k(1,2) by (intro calibrate_refine_unroll) simp_all
  with assms on hb k(3) sh have "s' = s\<lparr>loops_per_tick :=
      foldl (refine_step f) (2 ^ k) (map (\<lambda>i. 2 ^ (k - i)) [1..<10])\<rparr>"
    by (simp add: timer_calibrate_def del: drop_bit_Suc foldl.simps upt_Suc)
  with k(1,2) show ?thesis unfolding l by (intro exI [of _ k]) simp
qed

lemma timer_calibrate_returns: "\<exists>r. timer_calibrate f s = Some r"
proof (cases "level s = INTR_ON")
  case False
  then show ?thesis by (simp add: timer_calibrate_def)
next
  case True
  show ?thesis
  proof (cases "calibrate_search f (push_bit 10 1)")
    case (Inl e)
    with True show ?thesis by (simp add: timer_calibrate_def)
  next
    case (Inr hb)
    from calibrate_refine_from [of 1 f hb hb] obtain l where
      "calibrate_refine f hb (drop_bit 1 hb) hb = Some l" by auto
    with True Inr show ?thesis by (simp add: timer_calibrate_def del: drop_bit_Suc)
  qed
qed

text \<open>
  C8. Each step of the refinement leaves \<^verbatim>\<open>loops_per_tick\<close> as it is or ORs the
  tested bit in, so the value never decreases. The claim that the bits refined are
  exactly the next 8 bits, which is also what the comment in the code says, fails: the
  loop runs from \<^verbatim>\<open>high_bit >> 1\<close> down to \<^verbatim>\<open>high_bit >> 9\<close>, nine bits. Where
  2048 loops are too many and fewer are not, the search ends at \<open>2\<^sup>1\<^sup>0\<close> and the result
  is 2046: bit 1, the ninth below bit 10, is set.
\<close>

theorem timer_calibrate_refines_ninth_bit:
  "timer_calibrate (\<lambda>loops. 2048 \<le> loops) (timer_init INTR_ON 0) =
     Some (Inr ((timer_init INTR_ON 0)\<lparr>loops_per_tick := 2046\<rparr>)) \<and>
   (2046 :: unsigned) = 2 ^ 10 + (2 ^ 9 + 2 ^ 8 + 2 ^ 7 + 2 ^ 6 + 2 ^ 5 + 2 ^ 4 + 2 ^ 3 + 2 ^ 2 + 2 ^ 1)"
proof -
  have c1: "calibrate_search (\<lambda>loops. 2048 \<le> loops) (push_bit 10 1) = Inr 1024"
    by (simp add: calibrate_search.simps)
  have c2: "calibrate_refine (\<lambda>loops. 2048 \<le> loops) 1024 (drop_bit 1 1024) 1024 = Some 2046"
    by (simp add: calibrate_refine.simps refine_step_def)
  have "timer_calibrate (\<lambda>loops. 2048 \<le> loops) (timer_init INTR_ON 0) =
     Some (Inr ((timer_init INTR_ON 0)\<lparr>loops_per_tick := 2046\<rparr>))"
    using c1 c2 by (simp add: timer_calibrate_def timer_init_def)
  moreover have "(2046 :: unsigned) =
      2 ^ 10 + (2 ^ 9 + 2 ^ 8 + 2 ^ 7 + 2 ^ 6 + 2 ^ 5 + 2 ^ 4 + 2 ^ 3 + 2 ^ 2 + 2 ^ 1)"
    by simp
  ultimately show ?thesis by blast
qed

subsection \<open>Busy waiting comes to an end\<close>

text \<open>
  C9. \<^verbatim>\<open>busy_wait\<close> returns for every \<^verbatim>\<open>int64_t\<close> argument (it is a total
  function): its loop body runs \<open>loops\<close> times when \<open>loops > 0\<close> and not at all when
  \<open>loops \<le> 0\<close>. So a delay whose computed loop count is zero or negative spins zero
  times and changes nothing else.
\<close>

theorem busy_wait_iterations:
  "busy_wait loops = (if 0 <s loops then nat (sint loops) else 0) \<and>
   (wrapper_denom denom \<and>
    sdiv64 (sdiv64 (ucast (loops_per_tick s) * num) 1000 * freq)
      (scast (sdiv32 denom 1000)) \<le>s 0 \<longrightarrow>
    real_time_delay freq num denom s = Inr (s\<lparr>calls := calls s @ [BusyWait 0]\<rparr>))"
proof -
  have a: "busy_wait loops = (if 0 <s loops then nat (sint loops) else 0)"
    by (simp add: busy_wait_eq word_sless_alt)
  have b: "wrapper_denom denom \<and>
    sdiv64 (sdiv64 (ucast (loops_per_tick s) * num) 1000 * freq)
      (scast (sdiv32 denom 1000)) \<le>s 0 \<longrightarrow>
    real_time_delay freq num denom s = Inr (s\<lparr>calls := calls s @ [BusyWait 0]\<rparr>)"
    by (simp add: real_time_delay_busy_waits busy_wait_eq word_sle_eq)
  from a b show ?thesis by blast
qed

theorem busy_wait_iterations_witness:
  "busy_wait 3 = 3 \<and> busy_wait 0 = 0 \<and> busy_wait (- 5) = 0 \<and> busy_wait (- (2 ^ 63)) = 0 \<and>
   wrapper_denom 1000 \<and>
   timer_mdelay 100 (- 5) ((timer_init INTR_ON 8)\<lparr>loops_per_tick := 1024\<rparr>) =
     Inr ((timer_init INTR_ON 8)\<lparr>loops_per_tick := 1024, calls := [BusyWait 0]\<rparr>)"
proof -
  let ?s = "(timer_init INTR_ON 8)\<lparr>loops_per_tick := 1024\<rparr>"
  have w: "wrapper_denom 1000" by (simp add: wrapper_denom_def)
  have k: "sdiv64 (sdiv64 (ucast (loops_per_tick ?s) * (- 5)) 1000 * 100)
      (scast (sdiv32 1000 1000)) = - 500"
    by (simp add: timer_init_def sdiv64_def sdiv32_def signed_divide_int_def)
  then have n: "sdiv64 (sdiv64 (ucast (loops_per_tick ?s) * (- 5)) 1000 * 100)
      (scast (sdiv32 1000 1000)) \<le>s 0"
    by (simp add: word_sle_eq)
  from busy_wait_iterations [of 0 1000 ?s "- 5" 100] w n
  have d: "timer_mdelay 100 (- 5) ?s = Inr (?s\<lparr>calls := calls ?s @ [BusyWait 0]\<rparr>)"
    unfolding timer_mdelay_def by blast
  from busy_wait_iterations [of 3] have "busy_wait 3 = 3" by (simp add: word_sless_alt)
  moreover from busy_wait_iterations [of 0] have "busy_wait 0 = 0" by simp
  moreover from busy_wait_iterations [of "- 5"] have "busy_wait (- 5) = 0"
    by (simp add: word_sless_alt)
  moreover from busy_wait_iterations [of "- (2 ^ 63)"] have "busy_wait (- (2 ^ 63)) = 0"
    by (simp add: word_sless_alt)
  ultimately show ?thesis using w d by (simp add: timer_init_def)
qed

section \<open>Further properties\<close>

text \<open>
  Reading the tick counter returns its value and leaves the state as it was: the
  interrupt level is restored. \<^verbatim>\<open>timer_elapsed\<close> is the difference to the reference.
\<close>

theorem timer_ticks_reads_counter:
  "timer_ticks s = (ticks s, s) \<and> timer_elapsed ref s = (ticks s - ref, s)"
  by (simp add: timer_elapsed_def timer_ticks_eq)

text \<open>
  During the refinement \<^verbatim>\<open>loops_per_tick\<close> never decreases: a step leaves it as
  it is or ORs the tested bit in, and the value the loop ends with contains every bit
  of the value it started with.
\<close>

theorem refinement_never_decreases:
  "(refine_step f lpt tb = lpt \<or> refine_step f lpt tb = lpt OR tb) \<and>
   lpt \<le> refine_step f lpt tb \<and>
   (calibrate_refine f hb tb lpt = Some l \<longrightarrow> lpt \<le> l \<and> l AND lpt = lpt)"
  using refine_step_cases [of f lpt tb] refine_step_ge [of lpt f tb]
    calibrate_refine_mono [of f hb tb lpt l]
  by blast

theorem refinement_never_decreases_witness:
  "calibrate_refine (\<lambda>loops. 1500 \<le> loops) 1024 512 1024 = Some 1498 \<and>
   (1024 :: unsigned) \<le> 1498 \<and> (1498 :: unsigned) AND 1024 = 1024"
proof -
  have r: "calibrate_refine (\<lambda>loops. 1500 \<le> loops) 1024 512 1024 = Some 1498"
    by (simp add: calibrate_refine.simps refine_step_def)
  from refinement_never_decreases [of "\<lambda>loops. 1500 \<le> loops" 1024 512 1024 1498] r
  show ?thesis by blast
qed

text \<open>
  The calibration comes to an end whatever \<^verbatim>\<open>too_many_loops\<close> answers: it
  returns a state or fails an assertion.
\<close>

theorem timer_calibrate_comes_to_an_end:
  "\<exists>r. timer_calibrate f s = Some r"
  by (rule timer_calibrate_returns)

text \<open>
  Whenever the calibration succeeds, the leading bit is \<open>2\<^sup>k\<close> for some \<open>k\<close> from 10
  to 31 and the nine bits below it were tested in descending order.
\<close>

theorem timer_calibrate_nine_bits:
  assumes "timer_calibrate f s = Some (Inr s')"
  shows "\<exists>k. 10 \<le> k \<and> k < 32 \<and>
    s' = s\<lparr>loops_per_tick := foldl (refine_step f) (2 ^ k)
      [2 ^ (k - 1), 2 ^ (k - 2), 2 ^ (k - 3), 2 ^ (k - 4), 2 ^ (k - 5),
       2 ^ (k - 6), 2 ^ (k - 7), 2 ^ (k - 8), 2 ^ (k - 9)]\<rparr>"
  using assms by (rule timer_calibrate_tests_nine_bits)

theorem timer_calibrate_nine_bits_witness:
  "timer_calibrate (\<lambda>loops. 1500 \<le> loops) (timer_init INTR_ON 0) =
     Some (Inr ((timer_init INTR_ON 0)\<lparr>loops_per_tick := 1498\<rparr>)) \<and>
   (\<exists>k. 10 \<le> k \<and> k < 32 \<and>
     (timer_init INTR_ON 0)\<lparr>loops_per_tick := 1498\<rparr> =
     (timer_init INTR_ON 0)\<lparr>loops_per_tick := foldl (refine_step (\<lambda>loops. 1500 \<le> loops)) (2 ^ k)
      [2 ^ (k - 1), 2 ^ (k - 2), 2 ^ (k - 3), 2 ^ (k - 4), 2 ^ (k - 5),
       2 ^ (k - 6), 2 ^ (k - 7), 2 ^ (k - 8), 2 ^ (k - 9)]\<rparr>)"
proof -
  have c1: "calibrate_search (\<lambda>loops. 1500 \<le> loops) (push_bit 10 1) = Inr 1024"
    by (simp add: calibrate_search.simps)
  have c2: "calibrate_refine (\<lambda>loops. 1500 \<le> loops) 1024 (drop_bit 1 1024) 1024 = Some 1498"
    by (simp add: calibrate_refine.simps refine_step_def)
  have r: "timer_calibrate (\<lambda>loops. 1500 \<le> loops) (timer_init INTR_ON 0) =
     Some (Inr ((timer_init INTR_ON 0)\<lparr>loops_per_tick := 1498\<rparr>))"
    using c1 c2 by (simp add: timer_calibrate_def timer_init_def)
  from timer_calibrate_nine_bits [OF r] r show ?thesis by blast
qed

text \<open>
  The three sleep wrappers fail the assertion of \<^verbatim>\<open>real_time_sleep\<close> when they
  are called with interrupts off, whatever the duration.
\<close>

theorem sleep_wrappers_assert_interrupts_on:
  assumes "level s \<noteq> INTR_ON"
  shows "timer_msleep freq cur d s = Inl AssertionFailure \<and>
    timer_usleep freq cur d s = Inl AssertionFailure \<and>
    timer_nsleep freq cur d s = Inl AssertionFailure"
  using real_time_sleep_asserts_intr_on [OF assms] by simp

theorem sleep_wrappers_assert_interrupts_on_witness:
  "level (timer_init INTR_OFF 8) \<noteq> INTR_ON \<and>
   timer_msleep 100 1 250 (timer_init INTR_OFF 8) = Inl AssertionFailure \<and>
   timer_usleep 100 1 250 (timer_init INTR_OFF 8) = Inl AssertionFailure \<and>
   timer_nsleep 100 1 250 (timer_init INTR_OFF 8) = Inl AssertionFailure"
proof -
  have l: "level (timer_init INTR_OFF 8) \<noteq> INTR_ON" by (simp add: timer_init_def)
  from sleep_wrappers_assert_interrupts_on [OF l, of 100 1 250] l show ?thesis by simp
qed

end
